theory Spec2Isabelle
  imports Complex_Main "HOL-Library.Word" "HOL-Library.Log_Nat"
begin

unbundle bit_operations_syntax

text \<open>
  A model of \<open>desk.py\<close>, the control library of an AOKE standing desk: the command
  packet, the handler of the height notifications, \<open>Desk.move_to\<close> and the sit/stand
  scheduler \<open>_auto\<close>. Python integers are \<open>int\<close>, byte strings are lists of 8-bit words,
  floats are IEEE doubles given by their exact values, times are rationals. The coroutines
  run against an explicit environment: a clock, the notifications the link delivers with
  the times at which the event loop runs their callbacks, how long the link takes to
  acknowledge a write, the time at which the stop signal arrives, and what happens to the
  dialogs and notifications shown to the user.
\<close>

section \<open>Packet codec (desk.py, build\_move\_packet)\<close>

type_synonym byte = "8 word"

datatype error = ValueError | OverflowError | TransportError | SubprocessError

definition MIN_HEIGHT_MM :: int where
  "MIN_HEIGHT_MM = 650"

definition MAX_HEIGHT_MM :: int where
  "MAX_HEIGHT_MM = 1300"

text \<open>
  Python's \<open>bytes(body)\<close> on a list of integers raises ValueError unless every element
  lies in \<open>range(256)\<close>.
\<close>

definition bytes_of :: "int list \<Rightarrow> byte list option" where
  "bytes_of body =
     (if list_all (\<lambda>b. 0 \<le> b \<and> b < 256) body then Some (map word_of_int body) else None)"

text \<open>
  \<^verbatim>\<open>
  target_mm = max(MIN_HEIGHT_MM, min(MAX_HEIGHT_MM, target_mm))
  hi = (target_mm >> 8) & 0xFF
  lo = target_mm & 0xFF
  body = [0xA6, 0xA8, 0x01, hi, lo, 0x00, 0x00]
  chk = 0
  for b in body[2:]:
      chk ^= b
  body.append(chk)
  body.append(0xFF)
  return bytes(body)
  \<close>
\<close>

definition build_move_packet :: "int \<Rightarrow> byte list option" where
  "build_move_packet target_mm =
     (let target_mm = max MIN_HEIGHT_MM (min MAX_HEIGHT_MM target_mm);
          hi = (drop_bit 8 target_mm) AND 0xFF;
          lo = target_mm AND 0xFF;
          body = [0xA6, 0xA8, 0x01, hi, lo, 0x00, 0x00];
          chk = fold (\<lambda>b chk. chk XOR b) (drop 2 body) 0;
          body = body @ [chk];
          body = body @ [0xFF]
      in bytes_of body)"

section \<open>Telemetry handler (desk.py, Desk.\_on\_height)\<close>

text \<open>
  \<open>bytes(data).decode("ascii")\<close> raises UnicodeDecodeError when a byte is 0x80 or above;
  otherwise every byte becomes the character with that code.
\<close>

definition decode_ascii :: "byte list \<Rightarrow> string option" where
  "decode_ascii data =
     (if list_all (\<lambda>b. b < 0x80) data then Some (map (\<lambda>b. char_of (unat b)) data) else None)"

text \<open>
  \<open>str.isdigit\<close> on a string of ASCII characters: non-empty and every character one of
  \<open>0\<close> .. \<open>9\<close>.
\<close>

definition isdigit :: "string \<Rightarrow> bool" where
  "isdigit s = (s \<noteq> [] \<and> list_all (\<lambda>c. c \<in> set ''0123456789'') s)"

text \<open>\<open>int(s)\<close> on a string of decimal digits.\<close>

definition int_of_digits :: "string \<Rightarrow> int" where
  "int_of_digits s = fold (\<lambda>c n. 10 * n + (of_char c - 48)) s 0"

text \<open>
  A session gathers the Desk object (\<open>_height_mm\<close>, \<open>_height_updated\<close>, and the writes its
  \<open>_client\<close> has received) with the environment the coroutine runs in: the monotonic
  clock in seconds, and the notifications the link is going to deliver, in the order in
  which the event loop runs their callbacks, each with the time at which it does so.
  Callbacks with the same time are queued together: they all run before a coroutine that
  one of them wakes up is resumed.
\<close>

type_synonym time = rat

type_synonym notification = "time \<times> byte list"

record session =
  height_mm :: "int option"
  height_updated :: bool
  written :: "byte list list"
  clock :: time
  pending :: "notification list"

text \<open>\<open>Desk.__init__\<close>: no height yet, event not set.\<close>

definition desk_init :: "time \<Rightarrow> notification list \<Rightarrow> session" where
  "desk_init now evs =
     \<lparr>height_mm = None, height_updated = False, written = [], clock = now, pending = evs\<rparr>"

text \<open>
  \<^verbatim>\<open>
  try:
      s = bytes(data).decode("ascii")
      if len(s) == 4 and s.isdigit():
          self._height_mm = int(s)
          self._height_updated.set()
  except Exception:
      pass
  \<close>
\<close>

definition on_height :: "byte list \<Rightarrow> session \<Rightarrow> session" where
  "on_height data d =
     (case decode_ascii data of
        None \<Rightarrow> d
      | Some s \<Rightarrow>
          if length s = 4 \<and> isdigit s
          then d\<lparr>height_mm := Some (int_of_digits s), height_updated := True\<rparr>
          else d)"


text \<open>
  The telemetry decoder in the words of the specification: a payload is a reading exactly
  when it consists of four ASCII decimal digits, and the reading is their base-10 value.
\<close>

definition digit_byte :: "byte \<Rightarrow> bool" where
  "digit_byte b = (0x30 \<le> b \<and> b \<le> 0x39)"

definition telemetry_reading :: "byte list \<Rightarrow> int option" where
  "telemetry_reading payload =
     (if length payload = 4 \<and> list_all digit_byte payload
      then Some (1000 * (uint (payload ! 0) - 0x30) + 100 * (uint (payload ! 1) - 0x30)
                 + 10 * (uint (payload ! 2) - 0x30) + (uint (payload ! 3) - 0x30))
      else None)"

section \<open>Floats\<close>

text \<open>
  A Python float is an IEEE 754 double: a finite value, an infinity (\<open>Infinity True\<close> is the
  negative one) or NaN. \<open>Finite x\<close> stands for the double whose exact value is the rational
  \<open>x\<close>; the doubles are the values of \<open>round_double\<close>. The sign of a zero plays no part in
  the comparisons and conversions below and is dropped.
\<close>

datatype double = Finite rat | Infinity bool | NaN

definition pow2 :: "int \<Rightarrow> rat" where
  "pow2 k = (if 0 \<le> k then 2 ^ nat k else 1 / 2 ^ nat (- k))"

text \<open>The exponent \<open>e\<close> of a rational \<open>x\<close> other than 0: \<open>2 ^ e \<le> |x| < 2 ^ (e + 1)\<close>.\<close>

definition exponent :: "rat \<Rightarrow> int" where
  "exponent x =
     (let (p, q) = quotient_of \<bar>x\<bar>; k = bitlen p - bitlen q
      in if pow2 k \<le> \<bar>x\<bar> then k else k - 1)"

definition round_half_even :: "rat \<Rightarrow> int" where
  "round_half_even r =
     (let f = \<lfloor>r\<rfloor>; d = r - of_int f
      in if d < 1 / 2 then f else if 1 / 2 < d then f + 1 else if even f then f else f + 1)"

text \<open>
  Rounding to the nearest double, ties to the even significand: 53 significant bits, the
  exponent not below -1022 (subnormal numbers), and infinity from \<open>2 ^ 1024\<close> on.
\<close>

definition round_double :: "rat \<Rightarrow> double" where
  "round_double x =
     (if x = 0 then Finite 0
      else
        let e = max (exponent x) (- 1022);
            ulp = pow2 (e - 52);
            y = of_int (round_half_even (\<bar>x\<bar> / ulp)) * ulp
        in if pow2 1024 \<le> y then Infinity (x < 0) else Finite (sgn x * y))"

fun float_sub :: "double \<Rightarrow> double \<Rightarrow> double" where
  "float_sub (Finite x) (Finite y) = round_double (x - y)"
| "float_sub (Finite x) (Infinity s) = Infinity (\<not> s)"
| "float_sub (Infinity s) (Finite y) = Infinity s"
| "float_sub (Infinity s) (Infinity s') = (if s = s' then NaN else Infinity s)"
| "float_sub NaN b = NaN"
| "float_sub a NaN = NaN"

fun float_mul :: "double \<Rightarrow> double \<Rightarrow> double" where
  "float_mul (Finite x) (Finite y) = round_double (x * y)"
| "float_mul (Finite x) (Infinity s) = (if x = 0 then NaN else Infinity (s \<noteq> (x < 0)))"
| "float_mul (Infinity s) (Finite y) = (if y = 0 then NaN else Infinity (s \<noteq> (y < 0)))"
| "float_mul (Infinity s) (Infinity s') = Infinity (s \<noteq> s')"
| "float_mul NaN b = NaN"
| "float_mul a NaN = NaN"

fun float_abs :: "double \<Rightarrow> double" where
  "float_abs (Finite x) = Finite \<bar>x\<bar>"
| "float_abs (Infinity s) = Infinity False"
| "float_abs NaN = NaN"

text \<open>The comparisons \<open><\<close> and \<open>>=\<close>: False as soon as one side is NaN.\<close>

fun float_lt :: "double \<Rightarrow> double \<Rightarrow> bool" where
  "float_lt (Finite x) (Finite y) = (x < y)"
| "float_lt (Finite x) (Infinity s) = (\<not> s)"
| "float_lt (Infinity s) (Finite y) = s"
| "float_lt (Infinity s) (Infinity s') = (s \<and> \<not> s')"
| "float_lt NaN b = False"
| "float_lt a NaN = False"

fun float_ge :: "double \<Rightarrow> double \<Rightarrow> bool" where
  "float_ge (Finite x) (Finite y) = (y \<le> x)"
| "float_ge (Finite x) (Infinity s) = s"
| "float_ge (Infinity s) (Finite y) = (\<not> s)"
| "float_ge (Infinity s) (Infinity s') = (s' \<or> \<not> s)"
| "float_ge NaN b = False"
| "float_ge a NaN = False"

text \<open>
  \<open>int(x)\<close> on a float truncates towards zero; it raises OverflowError on an infinity and
  ValueError on NaN.
\<close>

fun py_int :: "double \<Rightarrow> error + int" where
  "py_int (Finite x) = Inr (if 0 \<le> x then \<lfloor>x\<rfloor> else \<lceil>x\<rceil>)"
| "py_int (Infinity s) = Inl OverflowError"
| "py_int NaN = Inl ValueError"

text \<open>
  The property \<open>height_cm\<close>: \<open>self._height_mm / 10.0\<close>, or None. The integer is converted
  to a float, exactly for the heights a notification can store, and the quotient is rounded.
\<close>

definition height_cm :: "session \<Rightarrow> double option" where
  "height_cm d =
     (if height_mm d \<noteq> None then Some (round_double (of_int (the (height_mm d)) / 10)) else None)"

section \<open>Move controller (desk.py, Desk.move\_to)\<close>

text \<open>
  The coroutine is suspended in \<open>asyncio.wait_for(self._height_updated.wait(), timeout)\<close>
  until the event is set or the timeout expires. While it is suspended the event loop runs
  \<open>_on_height\<close> on each notification when its time has come; a pending notification whose
  time is already past is handled at once. When a callback has set the event, the callbacks
  queued with it (those whose time is not after the clock) run too, and then the coroutine
  is resumed: the wait ends with \<open>True\<close>. It ends with \<open>False\<close> (TimeoutError) at the
  deadline when no notification handled before the deadline has set the event.
\<close>

function wait_for_update :: "time \<Rightarrow> session \<Rightarrow> bool \<times> session" where
  "wait_for_update deadline d =
     (case pending d of
        [] \<Rightarrow>
          if height_updated d then (True, d)
          else (False, d\<lparr>clock := max (clock d) deadline\<rparr>)
      | (t, data) # evs \<Rightarrow>
          if height_updated d then
            if t \<le> clock d
            then wait_for_update deadline (on_height data (d\<lparr>pending := evs\<rparr>))
            else (True, d)
          else if t < deadline
          then wait_for_update deadline
                 (on_height data (d\<lparr>clock := max (clock d) t, pending := evs\<rparr>))
          else (False, d\<lparr>clock := max (clock d) deadline\<rparr>))"
  by pat_completeness auto

lemma pending_on_height: "pending (on_height data d) = pending d"
  by (simp add: on_height_def split: option.splits)

termination wait_for_update
  by (relation "measure (\<lambda>(deadline, d). length (pending d))")
     (simp_all add: pending_on_height)

declare wait_for_update.simps [simp del]

lemma wait_for_update_length:
  "pending d = evs \<Longrightarrow> length (pending (snd (wait_for_update deadline d))) \<le> length evs"
proof (induction evs arbitrary: d)
  case Nil
  then show ?case by (simp add: wait_for_update.simps[of deadline d])
next
  case (Cons e evs)
  obtain t data where e: "e = (t, data)" by (cases e)
  have 1: "length (pending (snd (wait_for_update deadline (on_height data (d\<lparr>pending := evs\<rparr>)))))
             \<le> length evs"
    by (rule Cons.IH) (simp add: pending_on_height)
  have 2: "length (pending (snd (wait_for_update deadline
             (on_height data (d\<lparr>clock := max (clock d) t, pending := evs\<rparr>))))) \<le> length evs"
    by (rule Cons.IH) (simp add: pending_on_height)
  from 1 2 Cons.prems show ?case
    by (simp add: wait_for_update.simps[of deadline d] e)
qed

lemma wait_for_update_consumes:
  assumes "wait_for_update deadline d = (True, d')" "\<not> height_updated d"
  shows "length (pending d') < length (pending d)"
proof (cases "pending d")
  case Nil
  with assms show ?thesis by (simp add: wait_for_update.simps[of deadline d])
next
  case (Cons e evs)
  obtain t data where e: "e = (t, data)" by (cases e)
  let ?d1 = "on_height data (d\<lparr>clock := max (clock d) t, pending := evs\<rparr>)"
  from assms Cons e have "wait_for_update deadline ?d1 = (True, d')"
    by (simp add: wait_for_update.simps[of deadline d] split: if_splits)
  with wait_for_update_length[of ?d1 evs deadline]
  have "length (pending d') \<le> length evs" by (simp add: pending_on_height)
  with Cons show ?thesis by simp
qed

text \<open>
  \<^verbatim>\<open>
  while time.monotonic() < deadline:
      self._height_updated.clear()
      try:
          await asyncio.wait_for(self._height_updated.wait(), timeout=deadline - time.monotonic())
      except (asyncio.TimeoutError, ValueError):
          break
      if self._height_mm is not None and abs(self._height_mm - target_mm) <= tolerance_mm:
          return True
  return False
  \<close>
\<close>

function move_loop :: "int \<Rightarrow> int \<Rightarrow> time \<Rightarrow> session \<Rightarrow> bool \<times> session" where
  "move_loop target_mm tolerance_mm deadline d =
     (if clock d < deadline then
        (case wait_for_update deadline (d\<lparr>height_updated := False\<rparr>) of
           (False, d') \<Rightarrow> (False, d')
         | (True, d') \<Rightarrow>
             if height_mm d' \<noteq> None \<and> \<bar>the (height_mm d') - target_mm\<bar> \<le> tolerance_mm
             then (True, d')
             else move_loop target_mm tolerance_mm deadline d')
      else (False, d))"
  by pat_completeness auto

termination move_loop
  by (relation "measure (\<lambda>(target_mm, tolerance_mm, deadline, d). length (pending d))")
     (auto dest!: wait_for_update_consumes[OF sym])

declare move_loop.simps [simp del]

text \<open>
  While the coroutine is suspended until \<open>t\<close> (in \<open>asyncio.sleep\<close>, in an awaited write,
  or while a dialog is open in another thread) the event loop handles the notifications
  whose time is before \<open>t\<close>.
\<close>

function deliver_until :: "time \<Rightarrow> session \<Rightarrow> session" where
  "deliver_until t d =
     (case pending d of
        [] \<Rightarrow> d\<lparr>clock := max (clock d) t\<rparr>
      | (t', data) # evs \<Rightarrow>
          if t' < t
          then deliver_until t (on_height data (d\<lparr>clock := max (clock d) t', pending := evs\<rparr>))
          else d\<lparr>clock := max (clock d) t\<rparr>)"
  by pat_completeness auto

termination deliver_until
  by (relation "measure (\<lambda>(t, d). length (pending d))") (simp_all add: pending_on_height)

declare deliver_until.simps [simp del]

text \<open>
  \<^verbatim>\<open>
  cmd = build_move_packet(target_mm)
  await self._client.write_gatt_char(WRITE_UUID, cmd, response=True)
  deadline = time.monotonic() + timeout
  \<close>
  followed by the loop above. The write is recorded in \<open>written\<close>. The coroutine is
  suspended for \<open>latency\<close> until the link answers, and notifications are handled meanwhile;
  \<open>link_ok\<close> tells whether the answer is the acknowledgement, and when it is not the
  exception of the client leaves \<open>move_to\<close>. The clock for the deadline is read after
  the answer.
\<close>

definition move_to ::
  "int \<Rightarrow> time \<Rightarrow> int \<Rightarrow> bool \<Rightarrow> time \<Rightarrow> session \<Rightarrow> (error + bool) \<times> session" where
  "move_to target_mm timeout tolerance_mm link_ok latency d =
     (case build_move_packet target_mm of
        None \<Rightarrow> (Inl ValueError, d)
      | Some cmd \<Rightarrow>
          let d = deliver_until (clock d + latency) (d\<lparr>written := written d @ [cmd]\<rparr>) in
          if \<not> link_ok then (Inl TransportError, d)
          else
            let deadline = clock d + timeout;
                (reached, d) = move_loop target_mm tolerance_mm deadline d
            in (Inr reached, d))"

text \<open>
  \<open>move_to_cm\<close> passes \<open>int(target_cm * 10)\<close> on, with the defaults \<open>timeout=30.0\<close> and
  \<open>tolerance_mm=10\<close> of \<open>move_to\<close>, which is how \<open>_auto\<close> calls it. The conversion raises
  when the product is an infinity or NaN, before anything is written.
\<close>

definition move_to_cm ::
  "double \<Rightarrow> bool \<Rightarrow> time \<Rightarrow> session \<Rightarrow> (error + bool) \<times> session" where
  "move_to_cm target_cm link_ok latency d =
     (case py_int (float_mul target_cm (Finite 10)) of
        Inl e \<Rightarrow> (Inl e, d)
      | Inr target_mm \<Rightarrow> move_to target_mm 30 10 link_ok latency d)"

section \<open>Alternation scheduler (desk.py, \_auto)\<close>

text \<open>
  \<open>connect\<close>: a fresh \<open>Desk\<close>, notifications switched on, then \<open>asyncio.sleep(0.5)\<close>.
\<close>

definition connect :: "time \<Rightarrow> notification list \<Rightarrow> session" where
  "connect now evs = (let d = desk_init now evs in deliver_until (clock d + 1 / 2) d)"

text \<open>
  \<^verbatim>\<open>
  next_is_stand = True
  if h is not None:
      if abs(h - stand) < 2.0:
          next_is_stand = False
      elif abs(h - sit) >= 2.0:
          next_is_stand = abs(h - sit) < abs(h - stand)
  \<close>
\<close>

definition initial_next_is_stand :: "double option \<Rightarrow> double \<Rightarrow> double \<Rightarrow> bool" where
  "initial_next_is_stand h sit stand =
     (let next_is_stand = True in
      if h \<noteq> None then
        if float_lt (float_abs (float_sub (the h) stand)) (Finite 2) then False
        else if float_ge (float_abs (float_sub (the h) sit)) (Finite 2)
        then float_lt (float_abs (float_sub (the h) sit)) (float_abs (float_sub (the h) stand))
        else next_is_stand
      else next_is_stand)"

text \<open>
  The stop event is set by the handler that \<open>signal.signal\<close> installs; \<open>stop_at\<close> is the
  time the signal arrives, if it ever does. The event is never cleared.
\<close>

definition stop_is_set :: "time option \<Rightarrow> time \<Rightarrow> bool" where
  "stop_is_set stop_at now = (case stop_at of None \<Rightarrow> False | Some t \<Rightarrow> t \<le> now)"

text \<open>
  \<open>asyncio.wait_for(stop.wait(), timeout=interval)\<close>, with the result whether it returned
  (the loop breaks) or timed out. The handler sets the event without waking the event loop
  up: the coroutine is resumed when the loop next has something to run, which is the
  callback of a notification or the timer of the timeout. So the wait goes on handling
  notifications until one is handled at or after the signal, lets the callbacks queued with
  it run, and returns. At the timer it returns if the signal came before, and times out
  otherwise.
\<close>

function interval_wait :: "time option \<Rightarrow> time \<Rightarrow> session \<Rightarrow> bool \<times> session" where
  "interval_wait stop_at deadline d =
     (case pending d of
        [] \<Rightarrow>
          if stop_is_set stop_at (clock d) then (True, d)
          else (stop_at \<noteq> None \<and> the stop_at < deadline, d\<lparr>clock := max (clock d) deadline\<rparr>)
      | (t, data) # evs \<Rightarrow>
          if stop_is_set stop_at (clock d) then
            if t \<le> clock d
            then interval_wait stop_at deadline (on_height data (d\<lparr>pending := evs\<rparr>))
            else (True, d)
          else if t < deadline
          then interval_wait stop_at deadline
                 (on_height data (d\<lparr>clock := max (clock d) t, pending := evs\<rparr>))
          else (stop_at \<noteq> None \<and> the stop_at < deadline, d\<lparr>clock := max (clock d) deadline\<rparr>))"
  by pat_completeness auto

termination interval_wait
  by (relation "measure (\<lambda>(stop_at, deadline, d). length (pending d))")
     (simp_all add: pending_on_height)

declare interval_wait.simps [simp del]

text \<open>
  What the environment does in one iteration of the loop: whether the output of the
  countdown dialog contains \<open>Skip\<close>, whether \<open>subprocess.run\<close> raises in the countdown step
  (no \<open>osascript\<close>, or its timeout), how long that step takes, how long the link takes to
  answer the write, and whether and after how long the notification that reports the move
  raises.
\<close>

record turn =
  skip_pressed :: bool
  subprocess_fails :: bool
  answered_after :: time
  write_latency :: time
  report_raises :: bool
  report_took :: time

text \<open>
  The value of \<open>_notify(title, message, countdown=countdown)\<close>. With a countdown the dialog
  runs inside \<open>try\<close>: the answer is whether it was skipped, and False when
  \<open>subprocess.run\<close> raised. Without one (\<open>if countdown:\<close> fails) a plain notification is
  shown outside any \<open>try\<close>: the exception of \<open>subprocess.run\<close> leaves \<open>_notify\<close>, and the
  answer is False otherwise.
\<close>

definition notify :: "int \<Rightarrow> turn \<Rightarrow> error + bool" where
  "notify countdown p =
     (if countdown \<noteq> 0 then Inr (\<not> subprocess_fails p \<and> skip_pressed p)
      else if subprocess_fails p then Inl SubprocessError
      else Inr False)"

text \<open>
  A plain \<open>_notify(title, message)\<close> called from the coroutine itself blocks the event loop
  until \<open>subprocess.run\<close> is done: time passes and no callback runs.
\<close>

definition block_for :: "time \<Rightarrow> session \<Rightarrow> session" where
  "block_for dt d = d\<lparr>clock := max (clock d) (clock d + dt)\<rparr>"

datatype flow = Break | Continue | Raise error

text \<open>
  One pass through \<open>while not stop.is_set()\<close>:
  \<^verbatim>\<open>
  try:
      await asyncio.wait_for(stop.wait(), timeout=interval)
      break
  except asyncio.TimeoutError:
      pass
  target = stand if next_is_stand else sit
  skipped = await asyncio.to_thread(_notify, ..., countdown=countdown)
  if stop.is_set():
      break
  if skipped:
      continue
  ok = await desk.move_to_cm(target)
  _notify("Desk", ...)
  next_is_stand = not next_is_stand
  \<close>
\<close>

definition auto_iteration ::
  "double \<Rightarrow> double \<Rightarrow> time \<Rightarrow> int \<Rightarrow> time option \<Rightarrow> bool \<Rightarrow> turn \<Rightarrow> bool \<times> session
     \<Rightarrow> flow \<times> bool \<times> session" where
  "auto_iteration sit stand interval countdown stop_at link_ok p st =
     (let (next_is_stand, d) = st in
      if stop_is_set stop_at (clock d) then (Break, next_is_stand, d)
      else
        let (stopped, d) = interval_wait stop_at (clock d + interval) d in
        if stopped then (Break, next_is_stand, d)
        else
          let target = (if next_is_stand then stand else sit);
              d = deliver_until (clock d + answered_after p) d
          in case notify countdown p of
               Inl e \<Rightarrow> (Raise e, next_is_stand, d)
             | Inr skipped \<Rightarrow>
                 if stop_is_set stop_at (clock d) then (Break, next_is_stand, d)
                 else if skipped then (Continue, next_is_stand, d)
                 else
                   (case move_to_cm target link_ok (write_latency p) d of
                      (Inl e, d) \<Rightarrow> (Raise e, next_is_stand, d)
                    | (Inr ok, d) \<Rightarrow>
                        let d = block_for (report_took p) d in
                        if report_raises p then (Raise SubprocessError, next_is_stand, d)
                        else (Continue, \<not> next_is_stand, d)))"

text \<open>
  The loop, run on the successive turns of the environment. It ends with \<open>Break\<close> when the
  stop event ends it and with \<open>Raise\<close> when an exception leaves it; \<open>Continue\<close> says that
  the loop is still running when the turns are used up.
\<close>

fun auto_loop ::
  "double \<Rightarrow> double \<Rightarrow> time \<Rightarrow> int \<Rightarrow> time option \<Rightarrow> bool \<Rightarrow> turn list \<Rightarrow> bool \<times> session
     \<Rightarrow> flow \<times> bool \<times> session" where
  "auto_loop sit stand interval countdown stop_at link_ok [] st = (Continue, st)"
| "auto_loop sit stand interval countdown stop_at link_ok (p # ps) st =
     (case auto_iteration sit stand interval countdown stop_at link_ok p st of
        (Continue, st') \<Rightarrow> auto_loop sit stand interval countdown stop_at link_ok ps st'
      | r \<Rightarrow> r)"

text \<open>
  A plain notification shown by the coroutine: whether \<open>subprocess.run\<close> raises, and how
  long it takes.
\<close>

record notice =
  raises :: bool
  took :: time

text \<open>
  \<open>_auto\<close> from the connection onwards: the startup rule on the height tracked so far, the
  notification "Started", the loop, and the notification "Stopped" once the loop has ended.
\<close>

definition auto ::
  "double \<Rightarrow> double \<Rightarrow> time \<Rightarrow> int \<Rightarrow> time option \<Rightarrow> bool \<Rightarrow> notice \<Rightarrow> notice \<Rightarrow> turn list
     \<Rightarrow> time \<Rightarrow> notification list \<Rightarrow> flow \<times> bool \<times> session" where
  "auto sit stand interval countdown stop_at link_ok started stopped ps now evs =
     (let d = connect now evs;
          h = height_cm d;
          next_is_stand = initial_next_is_stand h sit stand;
          d = block_for (took started) d
      in if raises started then (Raise SubprocessError, next_is_stand, d)
         else
           (case auto_loop sit stand interval countdown stop_at link_ok ps (next_is_stand, d) of
              (Break, next_is_stand, d) \<Rightarrow>
                let d = block_for (took stopped) d in
                if raises stopped then (Raise SubprocessError, next_is_stand, d)
                else (Break, next_is_stand, d)
            | r \<Rightarrow> r))"

section \<open>Notions used to state the properties\<close>

text \<open>The notifications that arrive before a deadline, in arrival order.\<close>

definition arrivals_before :: "time \<Rightarrow> notification list \<Rightarrow> notification list" where
  "arrivals_before deadline evs = takeWhile (\<lambda>(t, data). t < deadline) evs"

definition within_tolerance :: "int \<Rightarrow> int \<Rightarrow> byte list \<Rightarrow> bool" where
  "within_tolerance target_mm tolerance_mm data =
     (case telemetry_reading data of None \<Rightarrow> False | Some r \<Rightarrow> \<bar>r - target_mm\<bar> \<le> tolerance_mm)"

text \<open>
  The tracked height after a sequence of notifications has been delivered: the last reading
  among them, or the height held before when none of them is a reading.
\<close>

fun track :: "int option \<Rightarrow> notification list \<Rightarrow> int option" where
  "track h [] = h"
| "track h ((t, data) # evs) =
     track (case telemetry_reading data of None \<Rightarrow> h | Some r \<Rightarrow> Some r) evs"

definition delivered :: "session \<Rightarrow> session \<Rightarrow> notification list" where
  "delivered d d' = take (length (pending d) - length (pending d')) (pending d)"

definition tracks :: "session \<Rightarrow> session \<Rightarrow> bool" where
  "tracks d d' =
     (pending d = delivered d d' @ pending d' \<and>
      height_mm d' = track (height_mm d) (delivered d d'))"

text \<open>The tracked height is unknown or a number of at most four decimal digits.\<close>

definition height_ok :: "session \<Rightarrow> bool" where
  "height_ok d = (case height_mm d of None \<Rightarrow> True | Some h \<Rightarrow> 0 \<le> h \<and> h \<le> 9999)"

text \<open>
  Each notification is handled after the clock reading \<open>now\<close> and after the one before it:
  no two callbacks are queued together.
\<close>

definition one_at_a_time :: "time \<Rightarrow> notification list \<Rightarrow> bool" where
  "one_at_a_time now evs = sorted_wrt (<) (now # map fst evs)"




section \<open>Lemmas: floats\<close>

lemma pow2_powi: "pow2 k = 2 powi k"
  by (simp add: pow2_def power_int_def field_simps)

lemma pow2_pos: "0 < pow2 k"
  by (simp add: pow2_powi)

lemma pow2_add: "pow2 (a + b) = pow2 a * pow2 b"
  by (simp add: pow2_powi power_int_add)

lemma pow2_mono: "a \<le> b \<Longrightarrow> pow2 a \<le> pow2 b"
  by (simp add: pow2_powi power_int_increasing)

lemma pow2_nat: "pow2 (int n) = 2 ^ n"
  by (simp add: pow2_def)

lemma pow2_diff: "pow2 (a - b) = pow2 a / pow2 b"
  by (simp add: pow2_powi power_int_diff)

lemma exponent_bounds:
  assumes "x \<noteq> 0"
  shows "pow2 (exponent x) \<le> \<bar>x\<bar>" and "\<bar>x\<bar> < pow2 (exponent x + 1)"
proof -
  obtain p q where pq: "quotient_of \<bar>x\<bar> = (p, q)" by (cases "quotient_of \<bar>x\<bar>")
  then have q: "0 < q" and x: "\<bar>x\<bar> = of_int p / of_int q"
    using quotient_of_denom_pos quotient_of_div by blast+
  from assms x q have p: "0 < p"
    by (metis abs_ge_zero abs_zero divide_eq_0_iff less_le of_int_0 of_int_eq_iff
        zero_less_abs_iff zero_less_divide_iff of_int_pos zero_le_divide_iff of_int_0_less_iff
        not_less)
  let ?k = "bitlen p - bitlen q"
  from bitlen_bounds[OF p] have bp: "2 ^ nat (bitlen p - 1) \<le> p" "p < 2 ^ nat (bitlen p)" by auto
  from bitlen_bounds[OF q] have bq: "2 ^ nat (bitlen q - 1) \<le> q" "q < 2 ^ nat (bitlen q)" by auto
  have lp: "1 \<le> bitlen p"
    using p bitlen_nonneg[of p] bitlen_eq_zero_iff[of p] by linarith
  have lq: "1 \<le> bitlen q"
    using q bitlen_nonneg[of q] bitlen_eq_zero_iff[of q] by linarith
  have P1: "pow2 (bitlen p - 1) \<le> of_int p"
  proof -
    have "pow2 (bitlen p - 1) = of_int (2 ^ nat (bitlen p - 1))"
      using lp by (simp add: pow2_def)
    also have "\<dots> \<le> of_int p" using bp(1) by (simp only: of_int_le_iff)
    finally show ?thesis .
  qed
  have P2: "of_int p < pow2 (bitlen p)"
  proof -
    have "(of_int p :: rat) < of_int (2 ^ nat (bitlen p))" using bp(2) by (simp only: of_int_less_iff)
    also have "\<dots> = pow2 (bitlen p)" using lp by (simp add: pow2_def)
    finally show ?thesis .
  qed
  have Q1: "pow2 (bitlen q - 1) \<le> of_int q"
  proof -
    have "pow2 (bitlen q - 1) = of_int (2 ^ nat (bitlen q - 1))"
      using lq by (simp add: pow2_def)
    also have "\<dots> \<le> of_int q" using bq(1) by (simp only: of_int_le_iff)
    finally show ?thesis .
  qed
  have Q2: "of_int q < pow2 (bitlen q)"
  proof -
    have "(of_int q :: rat) < of_int (2 ^ nat (bitlen q))" using bq(2) by (simp only: of_int_less_iff)
    also have "\<dots> = pow2 (bitlen q)" using lq by (simp add: pow2_def)
    finally show ?thesis .
  qed
  have qr: "(0 :: rat) < of_int q" using q by simp
  have up: "\<bar>x\<bar> < pow2 (?k + 1)"
  proof -
    have "of_int p < pow2 (bitlen p)" by (rule P2)
    also have "pow2 (bitlen p) = pow2 (?k + 1) * pow2 (bitlen q - 1)"
      by (simp add: pow2_add[symmetric])
    also have "\<dots> \<le> pow2 (?k + 1) * of_int q"
      using Q1 pow2_pos[of "?k + 1"] by (simp add: mult_left_mono)
    finally show ?thesis using qr by (simp add: x pos_divide_less_eq)
  qed
  have lo: "pow2 (?k - 1) < \<bar>x\<bar>"
  proof -
    have "pow2 (?k - 1) * of_int q < pow2 (?k - 1) * pow2 (bitlen q)"
      using Q2 pow2_pos[of "?k - 1"] by (simp add: mult_strict_left_mono)
    also have "\<dots> = pow2 (bitlen p - 1)" by (simp add: pow2_add[symmetric])
    also have "\<dots> \<le> of_int p" by (rule P1)
    finally show ?thesis using qr by (simp add: x pos_less_divide_eq)
  qed
  have e: "exponent x = (if pow2 ?k \<le> \<bar>x\<bar> then ?k else ?k - 1)"
    by (simp add: exponent_def pq Let_def)
  show "pow2 (exponent x) \<le> \<bar>x\<bar>" using lo by (simp add: e)
  show "\<bar>x\<bar> < pow2 (exponent x + 1)" using up by (auto simp: e not_le)
qed

lemma round_half_even_bounds:
  "\<lfloor>r\<rfloor> \<le> round_half_even r" "round_half_even r \<le> \<lfloor>r\<rfloor> + 1"
  by (simp_all add: round_half_even_def Let_def)

lemma pow2_split: "a + b = c \<Longrightarrow> pow2 c = pow2 a * pow2 b"
  by (auto simp: pow2_add)

lemma round_double_code:
  "round_double x =
     (if x = 0 then Finite 0
      else
        let e = max (exponent x) (- 1022);
            ulp = pow2 (e - 52);
            n = round_half_even (\<bar>x\<bar> / ulp)
        in if 1024 \<le> e \<or> (e = 1023 \<and> n = 2 ^ 53) then Infinity (x < 0)
           else Finite (sgn x * (of_int n * ulp)))"
proof (cases "x = 0")
  case True
  then show ?thesis by (simp add: round_double_def)
next
  case False
  define e where "e = max (exponent x) (- 1022)"
  define ulp where "ulp = pow2 (e - 52)"
  define n where "n = round_half_even (\<bar>x\<bar> / ulp)"
  have u: "0 < ulp" by (simp add: ulp_def pow2_pos)
  have "\<bar>x\<bar> < pow2 (exponent x + 1)" by (rule exponent_bounds(2)[OF False])
  also have "\<dots> \<le> pow2 (e + 1)" by (rule pow2_mono) (simp add: e_def)
  also have "\<dots> = pow2 53 * ulp" unfolding ulp_def by (rule pow2_split) simp
  finally have "\<bar>x\<bar> / ulp < pow2 53" using u by (simp add: pos_divide_less_eq)
  then have "\<bar>x\<bar> / ulp < of_int (2 ^ 53)" by (simp add: pow2_def)
  then have "\<lfloor>\<bar>x\<bar> / ulp\<rfloor> < 2 ^ 53" by (simp only: floor_less_iff)
  then have n_le: "n \<le> 2 ^ 53"
    unfolding n_def using round_half_even_bounds(2)[of "\<bar>x\<bar> / ulp"] by linarith
  have n_ge: "1024 \<le> e \<Longrightarrow> 2 ^ 52 \<le> n"
  proof -
    assume h: "1024 \<le> e"
    then have ee: "e = exponent x" by (simp add: e_def max_def split: if_splits)
    have "pow2 52 * ulp = pow2 e" unfolding ulp_def by (rule pow2_split[symmetric]) simp
    also have "\<dots> \<le> \<bar>x\<bar>" unfolding ee by (rule exponent_bounds(1)[OF False])
    finally have "pow2 52 \<le> \<bar>x\<bar> / ulp" using u by (simp add: pos_le_divide_eq)
    then have "of_int (2 ^ 52) \<le> \<bar>x\<bar> / ulp" by (simp add: pow2_def)
    then have "2 ^ 52 \<le> \<lfloor>\<bar>x\<bar> / ulp\<rfloor>" by (simp only: le_floor_iff)
    with round_half_even_bounds(1)[of "\<bar>x\<bar> / ulp"] show ?thesis
      unfolding n_def by linarith
  qed
  have key: "(pow2 1024 \<le> of_int n * ulp) = (1024 \<le> e \<or> (e = 1023 \<and> n = 2 ^ 53))"
  proof
    assume a: "pow2 1024 \<le> of_int n * ulp"
    show "1024 \<le> e \<or> (e = 1023 \<and> n = 2 ^ 53)"
    proof (rule ccontr)
      assume b: "\<not> (1024 \<le> e \<or> (e = 1023 \<and> n = 2 ^ 53))"
      have "of_int n * ulp < pow2 1024"
      proof (cases "e = 1023")
        case True
        with b n_le have "n < 2 ^ 53" by simp
        then have "(of_int n :: rat) < of_int (2 ^ 53)" by (simp only: of_int_less_iff)
        then have "(of_int n :: rat) < pow2 53" by (simp add: pow2_def)
        then have "of_int n * ulp < pow2 53 * ulp" using u by (simp add: mult_strict_right_mono)
        also have "\<dots> = pow2 1024" unfolding ulp_def True by (rule pow2_split[symmetric]) simp
        finally show ?thesis .
      next
        case False
        with b have e: "e \<le> 1022" by simp
        have "(of_int n :: rat) \<le> of_int (2 ^ 53)" using n_le by (simp only: of_int_le_iff)
        then have "(of_int n :: rat) \<le> pow2 53" by (simp add: pow2_def)
        then have "of_int n * ulp \<le> pow2 53 * ulp" using u by (simp add: mult_right_mono)
        also have "\<dots> = pow2 (e + 1)" unfolding ulp_def by (rule pow2_split[symmetric]) simp
        also have "\<dots> \<le> pow2 1023" by (rule pow2_mono) (use e in simp)
        also have "\<dots> < pow2 1024" by (simp add: pow2_powi)
        finally show ?thesis .
      qed
      with a show False by simp
    qed
  next
    assume a: "1024 \<le> e \<or> (e = 1023 \<and> n = 2 ^ 53)"
    then show "pow2 1024 \<le> of_int n * ulp"
    proof
      assume h: "1024 \<le> e"
      have "pow2 1024 \<le> pow2 e" by (rule pow2_mono[OF h])
      also have "\<dots> = pow2 52 * ulp" unfolding ulp_def by (rule pow2_split) simp
      also have "\<dots> \<le> of_int n * ulp"
      proof -
        have "(of_int (2 ^ 52) :: rat) \<le> of_int n" using n_ge[OF h] by (simp only: of_int_le_iff)
        then have "pow2 52 \<le> of_int n" by (simp add: pow2_def)
        then show ?thesis using u by (simp add: mult_right_mono)
      qed
      finally show ?thesis .
    next
      assume h: "e = 1023 \<and> n = 2 ^ 53"
      then have "of_int n * ulp = pow2 53 * pow2 971" by (simp add: ulp_def pow2_nat[of 53, simplified])
      also have "\<dots> = pow2 1024" by (rule pow2_split[symmetric]) simp
      finally show ?thesis by simp
    qed
  qed
  show ?thesis
    using False key
    by (simp add: round_double_def Let_def e_def[symmetric] ulp_def[symmetric] n_def[symmetric])
qed

text \<open>
  The equation above evaluates \<open>round_double\<close> without building \<open>2 ^ 1024\<close>.
\<close>

declare round_double_code [code]

section \<open>Lemmas: the command frame\<close>

lemma and_255: "(x::int) AND 0xFF = x mod 256"
proof -
  have "x AND mask 8 = take_bit 8 x" by (simp only: take_bit_eq_mask)
  then show ?thesis by (simp add: take_bit_int_def mask_eq_exp_minus_1)
qed

lemma xor_in_byte:
  assumes "0 \<le> (a::int)" "a < 256" "0 \<le> b" "b < 256"
  shows "0 \<le> a XOR b \<and> a XOR b < 256"
  using assms XOR_upper[of a 8 b] by simp

lemma build_move_packet_eq:
  fixes target_mm :: int
  defines "c \<equiv> max 650 (min 1300 target_mm)"
  defines "hi \<equiv> (word_of_int (c div 256) :: byte)"
  defines "lo \<equiv> (word_of_int (c mod 256) :: byte)"
  shows "build_move_packet target_mm =
           Some [0xA6, 0xA8, 0x01, hi, lo, 0x00, 0x00, 0x01 XOR hi XOR lo XOR 0x00 XOR 0x00, 0xFF]"
proof -
  have c: "650 \<le> c" "c \<le> 1300" by (simp_all add: c_def)
  have h: "0 \<le> c div 256" "c div 256 < 256" using c by auto
  have l: "0 \<le> c mod 256" "c mod 256 < 256" by auto
  have hi_int: "drop_bit 8 c AND 0xFF = c div 256"
    using h by (simp add: and_255 drop_bit_eq_div)
  have lo_int: "c AND 0xFF = c mod 256" by (rule and_255)
  have x1: "0 \<le> 1 XOR c div 256 \<and> 1 XOR c div 256 < 256"
    using xor_in_byte[of 1 "c div 256"] h by simp
  have x2: "0 \<le> (1 XOR c div 256) XOR c mod 256 \<and> (1 XOR c div 256) XOR c mod 256 < 256"
    using xor_in_byte[of "1 XOR c div 256" "c mod 256"] x1 l by simp
  show "build_move_packet target_mm =
      Some [0xA6, 0xA8, 0x01, hi, lo, 0x00, 0x00, 0x01 XOR hi XOR lo XOR 0x00 XOR 0x00, 0xFF]"
    unfolding build_move_packet_def MIN_HEIGHT_MM_def MAX_HEIGHT_MM_def Let_def
      c_def[symmetric] hi_int lo_int
    using h l x1 x2
    by (simp add: bytes_of_def hi_def lo_def of_int_xor_eq xor.assoc)
qed

lemma build_move_packet_total: "\<exists>cmd. build_move_packet T = Some cmd"
  using build_move_packet_eq[of T] by blast

lemma clamp_idem:
  "max MIN_HEIGHT_MM (min MAX_HEIGHT_MM (max MIN_HEIGHT_MM (min MAX_HEIGHT_MM t))) =
     max MIN_HEIGHT_MM (min MAX_HEIGHT_MM t)"
  by (simp add: MIN_HEIGHT_MM_def MAX_HEIGHT_MM_def)

lemma build_move_packet_clamp:
  "build_move_packet (max MIN_HEIGHT_MM (min MAX_HEIGHT_MM t)) = build_move_packet t"
  unfolding build_move_packet_def clamp_idem ..

section \<open>Lemmas: telemetry\<close>

lemma digit_char_iff:
  fixes b :: byte
  shows "char_of (unat b) \<in> set ''0123456789'' \<longleftrightarrow> digit_byte b"
proof -
  have lt: "unat b < 256" using unsigned_less[of b, where ?'a=nat] by simp
  have "char_of (unat b) \<in> set ''0123456789'' \<longleftrightarrow>
          unat b = 48 \<or> unat b = 49 \<or> unat b = 50 \<or> unat b = 51 \<or> unat b = 52 \<or>
          unat b = 53 \<or> unat b = 54 \<or> unat b = 55 \<or> unat b = 56 \<or> unat b = 57"
    using lt by (simp add: char_of_eq_iff take_bit_nat_def)
  also have "\<dots> \<longleftrightarrow> 48 \<le> unat b \<and> unat b \<le> 57"
    by arith
  also have "\<dots> \<longleftrightarrow> digit_byte b"
    by (simp add: digit_byte_def word_le_nat_alt)
  finally show ?thesis .
qed

lemma digit_byte_ascii: "digit_byte b \<Longrightarrow> b < 0x80"
  by (simp add: digit_byte_def word_le_nat_alt word_less_nat_alt)

lemma of_char_byte:
  fixes b :: byte
  shows "(of_char (char_of (unat b)) :: int) = uint b"
proof -
  have lt: "unat b < 256" using unsigned_less[of b, where ?'a=nat] by simp
  have "(of_char (char_of (unat b)) :: int) = int (of_char (char_of (unat b)))"
    by (simp only: of_nat_of_char)
  also have "\<dots> = int (unat b)" using lt by (simp add: of_char_of)
  finally show ?thesis by simp
qed


lemma int_of_digits_4:
  "int_of_digits [c0, c1, c2, c3] =
     1000 * (of_char c0 - 48) + 100 * (of_char c1 - 48) + 10 * (of_char c2 - 48) + (of_char c3 - 48)"
  by (simp add: int_of_digits_def)

lemma decode_ascii_4:
  "decode_ascii [a, b, c, d] =
     (if a < 0x80 \<and> b < 0x80 \<and> c < 0x80 \<and> d < 0x80
      then Some [char_of (unat a), char_of (unat b), char_of (unat c), char_of (unat d)] else None)"
  by (simp add: decode_ascii_def)

lemma decode_ascii_length: "decode_ascii data = Some s \<Longrightarrow> length s = length data"
  by (auto simp: decode_ascii_def split: if_splits)

lemma length_4_cases: "length xs = 4 \<Longrightarrow> \<exists>a b c d. xs = [a, b, c, d]"
  by (cases xs; simp; cases "tl xs"; simp; cases "tl (tl xs)"; simp; cases "tl (tl (tl xs))"; simp)

lemma on_height_4:
  "on_height [a, b, c, d] s =
     (case telemetry_reading [a, b, c, d] of None \<Rightarrow> s
      | Some r \<Rightarrow> s\<lparr>height_mm := Some r, height_updated := True\<rparr>)"
  using digit_byte_ascii[of a] digit_byte_ascii[of b] digit_byte_ascii[of c] digit_byte_ascii[of d]
  by (simp add: on_height_def decode_ascii_4 isdigit_def digit_char_iff int_of_digits_4
      of_char_byte telemetry_reading_def del: set_simps list.set)

lemma telemetry_reading_not_4: "length data \<noteq> 4 \<Longrightarrow> telemetry_reading data = None"
  by (auto simp: telemetry_reading_def split: list.splits)

lemma on_height_not_4: "length data \<noteq> 4 \<Longrightarrow> on_height data s = s"
  by (auto simp: on_height_def dest: decode_ascii_length split: option.splits)

lemma on_height_reading:
  "on_height data s =
     (case telemetry_reading data of None \<Rightarrow> s
      | Some r \<Rightarrow> s\<lparr>height_mm := Some r, height_updated := True\<rparr>)"
proof (cases "length data = 4")
  case True
  then obtain a b c d where "data = [a, b, c, d]" using length_4_cases by blast
  then show ?thesis by (simp only: on_height_4)
next
  case False
  then show ?thesis by (simp add: on_height_not_4 telemetry_reading_not_4)
qed

lemma digit_byte_value: "digit_byte b \<Longrightarrow> 0 \<le> uint b - 48 \<and> uint b - 48 \<le> 9"
  by (simp add: digit_byte_def word_le_def)

lemma telemetry_reading_range:
  assumes "telemetry_reading data = Some r"
  shows "0 \<le> r \<and> r \<le> 9999"
proof -
  from assms have len: "length data = 4" and dig: "list_all digit_byte data"
    by (auto simp: telemetry_reading_def split: if_splits)
  from len obtain a b c e where data: "data = [a, b, c, e]" using length_4_cases by blast
  from dig data digit_byte_value[of a] digit_byte_value[of b] digit_byte_value[of c]
    digit_byte_value[of e] assms
  show ?thesis by (auto simp: telemetry_reading_def)
qed

lemma written_on_height: "written (on_height data d) = written d"
  by (simp add: on_height_reading split: option.splits)

lemma clock_on_height: "clock (on_height data d) = clock d"
  by (simp add: on_height_reading split: option.splits)

lemma height_mm_on_height:
  "height_mm (on_height data d) =
     (case telemetry_reading data of None \<Rightarrow> height_mm d | Some r \<Rightarrow> Some r)"
  by (simp add: on_height_reading split: option.splits)

lemma height_updated_on_height:
  "height_updated (on_height data d) = (height_updated d \<or> telemetry_reading data \<noteq> None)"
  by (simp add: on_height_reading split: option.splits)

section \<open>Lemmas: the tracked height follows the delivered readings\<close>

lemma track_append: "track h (xs @ ys) = track (track h xs) ys"
  by (induction xs arbitrary: h) auto

lemma tracksI:
  "pending d = pre @ pending d' \<Longrightarrow> height_mm d' = track (height_mm d) pre \<Longrightarrow> tracks d d'"
  by (simp add: tracks_def delivered_def)

lemma tracksE:
  assumes "tracks d d'"
  obtains pre where "pending d = pre @ pending d'" "height_mm d' = track (height_mm d) pre"
  using assms unfolding tracks_def by blast

lemma tracks_refl: "tracks d d"
  by (rule tracksI[where pre="[]"]) simp_all

lemma tracks_trans:
  assumes "tracks a b" "tracks b c"
  shows "tracks a c"
proof -
  from assms(1) obtain p1 where 1: "pending a = p1 @ pending b"
    "height_mm b = track (height_mm a) p1"
    by (rule tracksE)
  from assms(2) obtain p2 where 2: "pending b = p2 @ pending c"
    "height_mm c = track (height_mm b) p2"
    by (rule tracksE)
  show ?thesis
    by (rule tracksI[where pre="p1 @ p2"]) (simp_all add: 1 2 track_append)
qed

lemma tracks_deliver_one:
  assumes "pending d = (t, data) # evs"
  shows "tracks d (on_height data (d\<lparr>clock := c, pending := evs\<rparr>))"
  by (rule tracksI[where pre="[(t, data)]"])
     (simp_all add: assms on_height_reading split: option.splits)

lemma tracks_clock: "tracks d (d\<lparr>clock := c\<rparr>)"
  by (rule tracksI[where pre="[]"]) simp_all

lemma tracks_clear: "tracks d (d\<lparr>height_updated := b\<rparr>)"
  by (rule tracksI[where pre="[]"]) simp_all

lemma tracks_write: "tracks d (d\<lparr>written := written d @ [cmd]\<rparr>)"
  by (rule tracksI[where pre="[]"]) simp_all

lemma track_ok:
  "(case h of None \<Rightarrow> True | Some x \<Rightarrow> 0 \<le> x \<and> x \<le> 9999) \<Longrightarrow>
   (case track h evs of None \<Rightarrow> True | Some x \<Rightarrow> 0 \<le> x \<and> x \<le> 9999)"
proof (induction evs arbitrary: h)
  case Nil
  then show ?case by simp
next
  case (Cons e evs)
  obtain t data where e: "e = (t, data)" by (cases e)
  show ?case
    unfolding e track.simps
    by (rule Cons.IH) (use Cons.prems telemetry_reading_range in \<open>auto split: option.splits\<close>)
qed

lemma height_ok_tracks: "height_ok d \<Longrightarrow> tracks d d' \<Longrightarrow> height_ok d'"
  using track_ok[of "height_mm d" "delivered d d'"] by (simp add: height_ok_def tracks_def)

lemma tracks_nothing_delivered:
  "tracks d d' \<Longrightarrow> pending d = [] \<Longrightarrow> height_mm d' = height_mm d"
  by (simp add: tracks_def delivered_def)

section \<open>Lemmas: waiting for an update\<close>

lemma track_unchanged:
  "list_all (\<lambda>x. telemetry_reading (snd x) = None) pre \<Longrightarrow> track h pre = h"
  by (induction pre arbitrary: h) auto

lemma track_last_reading:
  "list_ex (\<lambda>x. telemetry_reading (snd x) \<noteq> None) pre \<Longrightarrow>
     track h pre \<noteq> None \<and> (\<exists>x\<in>set pre. telemetry_reading (snd x) = track h pre)"
proof (induction pre arbitrary: h)
  case Nil
  then show ?case by simp
next
  case (Cons x xs)
  obtain t data where x: "x = (t, data)" by (cases x)
  show ?case
  proof (cases "list_ex (\<lambda>x. telemetry_reading (snd x) \<noteq> None) xs")
    case True
    from Cons.IH[OF True] show ?thesis by (auto simp: x)
  next
    case False
    then have "list_all (\<lambda>x. telemetry_reading (snd x) = None) xs"
      by (simp add: list_all_iff list_ex_iff)
    from track_unchanged[OF this] Cons.prems False show ?thesis
      by (auto simp: x)
  qed
qed

text \<open>What a wait has done when it returns.\<close>

lemma wait_for_update_delivers:
  "pending d = evs \<Longrightarrow>
     (\<exists>pre. evs = pre @ pending (snd (wait_for_update dl d))
        \<and> height_mm (snd (wait_for_update dl d)) = track (height_mm d) pre
        \<and> height_updated (snd (wait_for_update dl d)) =
            (height_updated d \<or> list_ex (\<lambda>x. telemetry_reading (snd x) \<noteq> None) pre)
        \<and> (clock d < dl \<longrightarrow> list_all (\<lambda>x. fst x < dl) pre)
        \<and> (\<not> fst (wait_for_update dl d) \<longrightarrow> pre = arrivals_before dl evs))
     \<and> written (snd (wait_for_update dl d)) = written d
     \<and> fst (wait_for_update dl d) = height_updated (snd (wait_for_update dl d))
     \<and> (fst (wait_for_update dl d) \<longrightarrow> clock d < dl \<longrightarrow> clock (snd (wait_for_update dl d)) < dl)
     \<and> (\<not> fst (wait_for_update dl d) \<longrightarrow>
           clock (snd (wait_for_update dl d)) = max (clock d) dl)"
proof (induction evs arbitrary: d)
  case Nil
  then show ?case
    by (simp add: wait_for_update.simps[of dl d] arrivals_before_def)
next
  case (Cons e evs)
  obtain t data where e: "e = (t, data)" by (cases e)
  note p = Cons.prems[unfolded e]
  show ?case
  proof (cases "height_updated d")
    case set: True
    show ?thesis
    proof (cases "t \<le> clock d")
      case False
      with set p show ?thesis
        by (simp add: wait_for_update.simps[of dl d] e)
    next
      case True
      let ?d1 = "on_height data (d\<lparr>pending := evs\<rparr>)"
      have w: "wait_for_update dl d = wait_for_update dl ?d1"
        using set p True by (simp add: wait_for_update.simps[of dl d])
      have p1: "pending ?d1 = evs" by (simp add: pending_on_height)
      from Cons.IH[OF p1] obtain pre where pre:
        "evs = pre @ pending (snd (wait_for_update dl ?d1))"
        "height_mm (snd (wait_for_update dl ?d1)) = track (height_mm ?d1) pre"
        "height_updated (snd (wait_for_update dl ?d1)) =
            (height_updated ?d1 \<or> list_ex (\<lambda>x. telemetry_reading (snd x) \<noteq> None) pre)"
        "clock ?d1 < dl \<longrightarrow> list_all (\<lambda>x. fst x < dl) pre"
        "\<not> fst (wait_for_update dl ?d1) \<longrightarrow> pre = arrivals_before dl evs"
        and rest: "written (snd (wait_for_update dl ?d1)) = written ?d1"
        "fst (wait_for_update dl ?d1) = height_updated (snd (wait_for_update dl ?d1))"
        "fst (wait_for_update dl ?d1) \<longrightarrow> clock ?d1 < dl \<longrightarrow> clock (snd (wait_for_update dl ?d1)) < dl"
        "\<not> fst (wait_for_update dl ?d1) \<longrightarrow> clock (snd (wait_for_update dl ?d1)) = max (clock ?d1) dl"
        by blast
      have f: "fst (wait_for_update dl ?d1)"
        using rest(2) pre(3) set by (simp add: height_updated_on_height)
      have "e # evs = ((t, data) # pre) @ pending (snd (wait_for_update dl d))
        \<and> height_mm (snd (wait_for_update dl d)) = track (height_mm d) ((t, data) # pre)
        \<and> height_updated (snd (wait_for_update dl d)) =
            (height_updated d \<or> list_ex (\<lambda>x. telemetry_reading (snd x) \<noteq> None) ((t, data) # pre))
        \<and> (clock d < dl \<longrightarrow> list_all (\<lambda>x. fst x < dl) ((t, data) # pre))
        \<and> (\<not> fst (wait_for_update dl d) \<longrightarrow> (t, data) # pre = arrivals_before dl (e # evs))"
        unfolding w using pre f set True
        by (auto simp: e height_mm_on_height height_updated_on_height clock_on_height
            split: option.splits)
      moreover have "written (snd (wait_for_update dl d)) = written d
        \<and> fst (wait_for_update dl d) = height_updated (snd (wait_for_update dl d))
        \<and> (fst (wait_for_update dl d) \<longrightarrow> clock d < dl \<longrightarrow> clock (snd (wait_for_update dl d)) < dl)
        \<and> (\<not> fst (wait_for_update dl d) \<longrightarrow> clock (snd (wait_for_update dl d)) = max (clock d) dl)"
        unfolding w using rest by (simp add: written_on_height clock_on_height)
      ultimately show ?thesis by blast
    qed
  next
    case unset: False
    show ?thesis
    proof (cases "t < dl")
      case False
      with unset p show ?thesis
        by (simp add: wait_for_update.simps[of dl d] e arrivals_before_def)
    next
      case True
      let ?d1 = "on_height data (d\<lparr>clock := max (clock d) t, pending := evs\<rparr>)"
      have w: "wait_for_update dl d = wait_for_update dl ?d1"
        using unset p True by (simp add: wait_for_update.simps[of dl d])
      have p1: "pending ?d1 = evs" by (simp add: pending_on_height)
      from Cons.IH[OF p1] obtain pre where pre:
        "evs = pre @ pending (snd (wait_for_update dl ?d1))"
        "height_mm (snd (wait_for_update dl ?d1)) = track (height_mm ?d1) pre"
        "height_updated (snd (wait_for_update dl ?d1)) =
            (height_updated ?d1 \<or> list_ex (\<lambda>x. telemetry_reading (snd x) \<noteq> None) pre)"
        "clock ?d1 < dl \<longrightarrow> list_all (\<lambda>x. fst x < dl) pre"
        "\<not> fst (wait_for_update dl ?d1) \<longrightarrow> pre = arrivals_before dl evs"
        and rest: "written (snd (wait_for_update dl ?d1)) = written ?d1"
        "fst (wait_for_update dl ?d1) = height_updated (snd (wait_for_update dl ?d1))"
        "fst (wait_for_update dl ?d1) \<longrightarrow> clock ?d1 < dl \<longrightarrow> clock (snd (wait_for_update dl ?d1)) < dl"
        "\<not> fst (wait_for_update dl ?d1) \<longrightarrow> clock (snd (wait_for_update dl ?d1)) = max (clock ?d1) dl"
        by blast
      have "e # evs = ((t, data) # pre) @ pending (snd (wait_for_update dl d))
        \<and> height_mm (snd (wait_for_update dl d)) = track (height_mm d) ((t, data) # pre)
        \<and> height_updated (snd (wait_for_update dl d)) =
            (height_updated d \<or> list_ex (\<lambda>x. telemetry_reading (snd x) \<noteq> None) ((t, data) # pre))
        \<and> (clock d < dl \<longrightarrow> list_all (\<lambda>x. fst x < dl) ((t, data) # pre))
        \<and> (\<not> fst (wait_for_update dl d) \<longrightarrow> (t, data) # pre = arrivals_before dl (e # evs))"
        unfolding w using pre unset True
        by (auto simp: e height_mm_on_height height_updated_on_height clock_on_height
            arrivals_before_def split: option.splits)
      moreover have "written (snd (wait_for_update dl d)) = written d
        \<and> fst (wait_for_update dl d) = height_updated (snd (wait_for_update dl d))
        \<and> (fst (wait_for_update dl d) \<longrightarrow> clock d < dl \<longrightarrow> clock (snd (wait_for_update dl d)) < dl)
        \<and> (\<not> fst (wait_for_update dl d) \<longrightarrow> clock (snd (wait_for_update dl d)) = max (clock d) dl)"
        unfolding w using rest True by (auto simp: written_on_height clock_on_height max_def)
      ultimately show ?thesis by blast
    qed
  qed
qed

lemma tracks_wait: "tracks d (snd (wait_for_update dl d))"
  using wait_for_update_delivers[OF refl, of d dl] by (blast intro: tracksI)

lemma written_wait: "written (snd (wait_for_update dl d)) = written d"
  using wait_for_update_delivers[OF refl, of d dl] by blast

lemma arrivals_before_append:
  "list_all (\<lambda>x. fst x < dl) pre \<Longrightarrow>
     arrivals_before dl (pre @ rest) = pre @ arrivals_before dl rest"
  by (induction pre) (auto simp: arrivals_before_def)

lemma loop_done:
  "\<not> clock d < dl \<Longrightarrow> move_loop T tol dl d = (False, d)"
  by (simp add: move_loop.simps[of T tol dl d])

lemma tracks_move_loop: "tracks d (snd (move_loop T tol dl d))"
proof (induction T tol dl d rule: move_loop.induct)
  case (1 T tol dl d)
  let ?w = "wait_for_update dl (d\<lparr>height_updated := False\<rparr>)"
  have w: "tracks d (snd ?w)"
    using tracks_trans[OF tracks_clear tracks_wait] .
  show ?case
  proof (cases "clock d < dl")
    case False
    then show ?thesis by (simp add: move_loop.simps[of T tol dl d] tracks_refl)
  next
    case True
    obtain b d' where r: "?w = (b, d')" by (cases ?w)
    show ?thesis
    proof (cases "b \<and> \<not> (height_mm d' \<noteq> None \<and> \<bar>the (height_mm d') - T\<bar> \<le> tol)")
      case False
      with True r w show ?thesis
        by (cases b) (auto simp: move_loop.simps[of T tol dl d])
    next
      case rec: True
      have "tracks d' (snd (move_loop T tol dl d'))"
        using "1.IH"[OF True r[symmetric]] rec by simp
      with w r have "tracks d (snd (move_loop T tol dl d'))"
        using tracks_trans by fastforce
      with True r rec show ?thesis by (auto simp: move_loop.simps[of T tol dl d])
    qed
  qed
qed

lemma move_loop_props:
  "written (snd (move_loop T tol dl d)) = written d
   \<and> (fst (move_loop T tol dl d) \<longrightarrow>
        clock (snd (move_loop T tol dl d)) < dl
        \<and> height_mm (snd (move_loop T tol dl d)) \<noteq> None
        \<and> \<bar>the (height_mm (snd (move_loop T tol dl d))) - T\<bar> \<le> tol
        \<and> list_ex (\<lambda>(t, data). within_tolerance T tol data) (arrivals_before dl (pending d)))
   \<and> (\<not> fst (move_loop T tol dl d) \<longrightarrow> clock (snd (move_loop T tol dl d)) = max (clock d) dl)"
proof (induction T tol dl d rule: move_loop.induct)
  case (1 T tol dl d)
  show ?case
  proof (cases "clock d < dl")
    case False
    then show ?thesis by (simp add: loop_done max_def)
  next
    case True
    let ?d0 = "d\<lparr>height_updated := False\<rparr>"
    let ?w = "wait_for_update dl ?d0"
    obtain b d1 where r: "?w = (b, d1)" by (cases ?w)
    from wait_for_update_delivers[of ?d0 "pending d" dl] r True
    obtain pre where pre: "pending d = pre @ pending d1"
      "height_mm d1 = track (height_mm d) pre"
      "height_updated d1 = list_ex (\<lambda>x. telemetry_reading (snd x) \<noteq> None) pre"
      "list_all (\<lambda>x. fst x < dl) pre"
      and rest: "written d1 = written d" "b = height_updated d1" "b \<longrightarrow> clock d1 < dl"
        "\<not> b \<longrightarrow> clock d1 = max (clock d) dl"
      by auto
    have arr: "arrivals_before dl (pending d) = pre @ arrivals_before dl (pending d1)"
      unfolding pre(1) by (rule arrivals_before_append[OF pre(4)])
    show ?thesis
    proof (cases b)
      case False
      with True r rest show ?thesis by (simp add: move_loop.simps[of T tol dl d])
    next
      case b: True
      show ?thesis
      proof (cases "height_mm d1 \<noteq> None \<and> \<bar>the (height_mm d1) - T\<bar> \<le> tol")
        case hit: True
        from b rest(2) pre(3) have "list_ex (\<lambda>x. telemetry_reading (snd x) \<noteq> None) pre" by simp
        from track_last_reading[OF this, of "height_mm d"] pre(2)
        obtain x where x: "x \<in> set pre" "telemetry_reading (snd x) = height_mm d1" by auto
        with hit have "within_tolerance T tol (snd x)"
          by (auto simp: within_tolerance_def)
        with x(1) have "list_ex (\<lambda>(t, data). within_tolerance T tol data) pre"
          unfolding list_ex_iff split_beta by blast
        then have "list_ex (\<lambda>(t, data). within_tolerance T tol data) (arrivals_before dl (pending d))"
          by (simp add: arr)
        with True r b hit rest show ?thesis
          by (simp add: move_loop.simps[of T tol dl d])
      next
        case miss: False
        have eq: "move_loop T tol dl d = move_loop T tol dl d1"
          using True r b miss by (auto simp: move_loop.simps[of T tol dl d])
        from "1.IH"[OF True r[symmetric]] b miss
        have ih: "written (snd (move_loop T tol dl d1)) = written d1
           \<and> (fst (move_loop T tol dl d1) \<longrightarrow>
                clock (snd (move_loop T tol dl d1)) < dl
                \<and> height_mm (snd (move_loop T tol dl d1)) \<noteq> None
                \<and> \<bar>the (height_mm (snd (move_loop T tol dl d1))) - T\<bar> \<le> tol
                \<and> list_ex (\<lambda>(t, data). within_tolerance T tol data) (arrivals_before dl (pending d1)))
           \<and> (\<not> fst (move_loop T tol dl d1) \<longrightarrow> clock (snd (move_loop T tol dl d1)) = max (clock d1) dl)"
          by simp
        from ih rest b True show ?thesis
          unfolding eq by (auto simp: arr max_def)
      qed
    qed
  qed
qed

section \<open>Lemmas: notifications handled one at a time\<close>

lemma wait_Nil:
  "\<not> height_updated d \<Longrightarrow> pending d = [] \<Longrightarrow>
     wait_for_update dl d = (False, d\<lparr>clock := max (clock d) dl\<rparr>)"
  by (simp add: wait_for_update.simps[of dl d])

lemma wait_late:
  "\<not> height_updated d \<Longrightarrow> pending d = (t, data) # evs \<Longrightarrow> \<not> t < dl \<Longrightarrow>
     wait_for_update dl d = (False, d\<lparr>clock := max (clock d) dl\<rparr>)"
  by (simp add: wait_for_update.simps[of dl d])

lemma wait_reject:
  "\<not> height_updated d \<Longrightarrow> pending d = (t, data) # evs \<Longrightarrow> t < dl \<Longrightarrow>
   telemetry_reading data = None \<Longrightarrow>
     wait_for_update dl d = wait_for_update dl (d\<lparr>clock := max (clock d) t, pending := evs\<rparr>)"
  by (simp add: wait_for_update.simps[of dl d] on_height_reading)

lemma wait_accept_alone:
  assumes "\<not> height_updated d" "pending d = (t, data) # evs" "t < dl" "clock d < t"
    "evs = [] \<or> t < fst (hd evs)" "telemetry_reading data = Some r"
  shows "wait_for_update dl d =
       (True, d\<lparr>clock := t, pending := evs, height_mm := Some r, height_updated := True\<rparr>)"
proof -
  let ?d1 = "d\<lparr>clock := t, pending := evs, height_mm := Some r, height_updated := True\<rparr>"
  have 1: "wait_for_update dl d = wait_for_update dl ?d1"
    using assms by (simp add: wait_for_update.simps[of dl d] on_height_reading max_def)
  have 2: "wait_for_update dl ?d1 = (True, ?d1)"
    using assms(5) by (subst wait_for_update.simps) (cases evs; auto)
  from 1 2 show ?thesis by simp
qed

lemma loop_Nil:
  "clock d < dl \<Longrightarrow> pending d = [] \<Longrightarrow>
     move_loop T tol dl d = (False, d\<lparr>height_updated := False, clock := dl\<rparr>)"
  by (simp add: move_loop.simps[of T tol dl d] wait_Nil max_def)

lemma loop_late:
  "clock d < dl \<Longrightarrow> pending d = (t, data) # evs \<Longrightarrow> \<not> t < dl \<Longrightarrow>
     move_loop T tol dl d = (False, d\<lparr>height_updated := False, clock := dl\<rparr>)"
  by (simp add: move_loop.simps[of T tol dl d] wait_late[where t=t and data=data and evs=evs] max_def)

lemma loop_reject:
  assumes "clock d < dl" "pending d = (t, data) # evs" "t < dl" "telemetry_reading data = None"
  shows "move_loop T tol dl d = move_loop T tol dl (d\<lparr>clock := max (clock d) t, pending := evs\<rparr>)"
proof -
  let ?d2 = "d\<lparr>clock := max (clock d) t, pending := evs\<rparr>"
  have eq: "d\<lparr>height_updated := False, clock := max (clock d) t, pending := evs\<rparr> =
            ?d2\<lparr>height_updated := False\<rparr>"
    by simp
  have "wait_for_update dl (d\<lparr>height_updated := False\<rparr>) =
        wait_for_update dl (?d2\<lparr>height_updated := False\<rparr>)"
    using assms wait_reject[of "d\<lparr>height_updated := False\<rparr>" t data evs dl]
    by (simp add: eq)
  moreover have "clock ?d2 < dl" using assms by simp
  ultimately show ?thesis
    using assms(1) by (simp add: move_loop.simps[of T tol dl d] move_loop.simps[of T tol dl ?d2])
qed

lemma loop_hit:
  assumes "clock d < dl" "pending d = (t, data) # evs" "t < dl" "clock d < t"
    "evs = [] \<or> t < fst (hd evs)" "telemetry_reading data = Some r" "\<bar>r - T\<bar> \<le> tol"
  shows "fst (move_loop T tol dl d)"
  using assms wait_accept_alone[of "d\<lparr>height_updated := False\<rparr>" t data evs dl r]
  by (simp add: move_loop.simps[of T tol dl d])

lemma loop_miss:
  assumes "clock d < dl" "pending d = (t, data) # evs" "t < dl" "clock d < t"
    "evs = [] \<or> t < fst (hd evs)" "telemetry_reading data = Some r" "\<not> \<bar>r - T\<bar> \<le> tol"
  shows "move_loop T tol dl d =
           move_loop T tol dl (d\<lparr>clock := t, pending := evs, height_mm := Some r,
                    height_updated := True\<rparr>)"
  using assms wait_accept_alone[of "d\<lparr>height_updated := False\<rparr>" t data evs dl r]
  by (simp add: move_loop.simps[of T tol dl d])

lemma move_loop_one_at_a_time:
  assumes "pending d = evs" "clock d < dl" "one_at_a_time (clock d) (arrivals_before dl evs)"
  shows "fst (move_loop T tol dl d) =
           list_ex (\<lambda>(t, data). within_tolerance T tol data) (arrivals_before dl evs)"
  using assms
proof (induction evs arbitrary: d)
  case Nil
  then show ?case by (simp add: loop_Nil arrivals_before_def)
next
  case (Cons e evs)
  obtain t data where e: "e = (t, data)" by (cases e)
  note p = Cons.prems(1)[unfolded e]
  show ?case
  proof (cases "t < dl")
    case False
    then show ?thesis
      using loop_late[OF Cons.prems(2) p False, of T tol]
      by (simp add: arrivals_before_def e)
  next
    case True
    have arr: "arrivals_before dl (e # evs) = (t, data) # arrivals_before dl evs"
      using True by (simp add: arrivals_before_def e)
    from Cons.prems(3) have lt: "clock d < t" and nxt: "one_at_a_time t (arrivals_before dl evs)"
      by (simp_all add: arr one_at_a_time_def)
    have alone: "evs = [] \<or> t < fst (hd evs)"
    proof (cases evs)
      case Nil
      then show ?thesis by simp
    next
      case (Cons e' evs')
      show ?thesis
      proof (cases "fst e' < dl")
        case True
        with nxt Cons show ?thesis
          by (cases e') (fastforce simp: one_at_a_time_def arrivals_before_def)
      next
        case False
        with \<open>t < dl\<close> Cons show ?thesis by simp
      qed
    qed
    show ?thesis
    proof (cases "telemetry_reading data")
      case None
      let ?d2 = "d\<lparr>clock := max (clock d) t, pending := evs\<rparr>"
      have "pending ?d2 = evs" "clock ?d2 < dl" "one_at_a_time (clock ?d2) (arrivals_before dl evs)"
        using True Cons.prems(2) lt nxt by (simp_all add: max_def)
      from Cons.IH[OF this]
      show ?thesis
        unfolding loop_reject[OF Cons.prems(2) p True None, of T tol]
        using None by (simp add: arr within_tolerance_def)
    next
      case (Some r)
      show ?thesis
      proof (cases "\<bar>r - T\<bar> \<le> tol")
        case hit: True
        from loop_hit[OF Cons.prems(2) p True lt alone Some hit] Some hit
        show ?thesis by (simp add: arr within_tolerance_def)
      next
        case miss: False
        let ?d2 = "d\<lparr>clock := t, pending := evs, height_mm := Some r, height_updated := True\<rparr>"
        have "pending ?d2 = evs" "clock ?d2 < dl" "one_at_a_time (clock ?d2) (arrivals_before dl evs)"
          using True nxt by simp_all
        from Cons.IH[OF this]
        show ?thesis
          unfolding loop_miss[OF Cons.prems(2) p True lt alone Some miss]
          using Some miss by (simp add: arr within_tolerance_def)
      qed
    qed
  qed
qed

section \<open>Lemmas: writes, sleeps and the interval wait\<close>

lemma deliver_Nil: "pending d = [] \<Longrightarrow> deliver_until t d = d\<lparr>clock := max (clock d) t\<rparr>"
  by (simp add: deliver_until.simps[of t d])

lemma deliver_late:
  "pending d = (t', data) # evs \<Longrightarrow> \<not> t' < t \<Longrightarrow> deliver_until t d = d\<lparr>clock := max (clock d) t\<rparr>"
  by (simp add: deliver_until.simps[of t d])

lemma deliver_step:
  "pending d = (t', data) # evs \<Longrightarrow> t' < t \<Longrightarrow>
     deliver_until t d =
       deliver_until t (on_height data (d\<lparr>clock := max (clock d) t', pending := evs\<rparr>))"
  by (simp add: deliver_until.simps[of t d])

lemma deliver_until_props:
  "pending d = evs \<Longrightarrow>
     written (deliver_until t d) = written d \<and> clock (deliver_until t d) = max (clock d) t
     \<and> tracks d (deliver_until t d)"
proof (induction evs arbitrary: d)
  case Nil
  then show ?case by (simp add: deliver_Nil tracks_clock)
next
  case (Cons e evs)
  obtain t' data where e: "e = (t', data)" by (cases e)
  note p = Cons.prems[unfolded e]
  show ?case
  proof (cases "t' < t")
    case False
    then show ?thesis using deliver_late[OF p False] by (simp add: tracks_clock)
  next
    case True
    let ?d1 = "on_height data (d\<lparr>clock := max (clock d) t', pending := evs\<rparr>)"
    have "pending ?d1 = evs" by (simp add: pending_on_height)
    from Cons.IH[OF this] tracks_deliver_one[OF p, of "max (clock d) t'"]
    show ?thesis
      unfolding deliver_step[OF p True]
      using True by (auto simp: written_on_height clock_on_height intro: tracks_trans)
  qed
qed

lemmas written_deliver_until = deliver_until_props[OF refl, THEN conjunct1]
lemmas tracks_deliver_until = deliver_until_props[OF refl, THEN conjunct2, THEN conjunct2]

lemma move_to_acked:
  assumes "build_move_packet T = Some cmd"
  shows "move_to T timeout tol True latency d =
           (let dw = deliver_until (clock d + latency) (d\<lparr>written := written d @ [cmd]\<rparr>)
            in (Inr (fst (move_loop T tol (clock dw + timeout) dw)),
                snd (move_loop T tol (clock dw + timeout) dw)))"
  by (simp add: move_to_def assms split_beta Let_def)

lemma move_to_refused:
  assumes "build_move_packet T = Some cmd"
  shows "move_to T timeout tol False latency d =
           (Inl TransportError,
            deliver_until (clock d + latency) (d\<lparr>written := written d @ [cmd]\<rparr>))"
  by (simp add: move_to_def assms)

lemma tracks_move_to: "tracks d (snd (move_to T timeout tol ok latency d))"
proof -
  obtain cmd where cmd: "build_move_packet T = Some cmd"
    using build_move_packet_total by blast
  let ?dw = "deliver_until (clock d + latency) (d\<lparr>written := written d @ [cmd]\<rparr>)"
  have w: "tracks d ?dw"
    using tracks_trans[OF tracks_write tracks_deliver_until] .
  show ?thesis
  proof (cases ok)
    case True
    have "tracks d (snd (move_loop T tol (clock ?dw + timeout) ?dw))"
      using tracks_trans[OF w tracks_move_loop] .
    then show ?thesis using True by (simp add: move_to_acked[OF cmd] Let_def)
  next
    case False
    then show ?thesis using w by (simp add: move_to_refused[OF cmd])
  qed
qed

lemma written_move_to:
  "written (snd (move_to T timeout tol ok latency d)) = written d @ [the (build_move_packet T)]"
proof -
  obtain cmd where cmd: "build_move_packet T = Some cmd"
    using build_move_packet_total by blast
  show ?thesis
    using move_loop_props[of T tol]
    by (cases ok)
       (simp_all add: move_to_acked[OF cmd] move_to_refused[OF cmd] cmd Let_def
          written_deliver_until)
qed



lemma tracks_move_to_cm: "tracks d (snd (move_to_cm target ok latency d))"
  by (simp add: move_to_cm_def tracks_refl tracks_move_to split: sum.splits)


lemma tracks_queued: "pending d = (t, data) # evs \<Longrightarrow> tracks d (on_height data (d\<lparr>pending := evs\<rparr>))"
  using tracks_deliver_one[of d t data evs "clock d"] by simp

lemma interval_wait_props:
  "pending d = evs \<Longrightarrow>
     written (snd (interval_wait stop_at dl d)) = written d
     \<and> tracks d (snd (interval_wait stop_at dl d))
     \<and> clock d \<le> clock (snd (interval_wait stop_at dl d))
     \<and> clock (snd (interval_wait stop_at dl d)) \<le> max (clock d) dl
     \<and> (fst (interval_wait stop_at dl d) \<longrightarrow>
           stop_is_set stop_at (clock (snd (interval_wait stop_at dl d))))
     \<and> (\<not> fst (interval_wait stop_at dl d) \<longrightarrow>
           clock (snd (interval_wait stop_at dl d)) = max (clock d) dl
           \<and> \<not> stop_is_set stop_at (clock d)
           \<and> (stop_at = None \<or> dl \<le> the stop_at))"
proof (induction evs arbitrary: d)
  case Nil
  then show ?case
    by (auto simp: interval_wait.simps[of stop_at dl d] tracks_refl tracks_clock
        stop_is_set_def max_def split: option.splits)
next
  case (Cons e evs)
  obtain t data where e: "e = (t, data)" by (cases e)
  note p = Cons.prems[unfolded e]
  show ?case
  proof (cases "stop_is_set stop_at (clock d)")
    case set: True
    show ?thesis
    proof (cases "t \<le> clock d")
      case False
      with set p show ?thesis
        by (simp add: interval_wait.simps[of stop_at dl d] tracks_refl)
    next
      case True
      let ?d1 = "on_height data (d\<lparr>pending := evs\<rparr>)"
      have w: "interval_wait stop_at dl d = interval_wait stop_at dl ?d1"
        using set p True by (simp add: interval_wait.simps[of stop_at dl d])
      have p1: "pending ?d1 = evs" by (simp add: pending_on_height)
      have s1: "stop_is_set stop_at (clock ?d1)" using set by (simp add: clock_on_height)
      from Cons.IH[OF p1] s1 tracks_trans[OF tracks_queued[OF p]]
      show ?thesis
        unfolding w by (auto simp: written_on_height clock_on_height)
    qed
  next
    case unset: False
    show ?thesis
    proof (cases "t < dl")
      case False
      with unset p show ?thesis
        by (auto simp: interval_wait.simps[of stop_at dl d] tracks_clock stop_is_set_def
            max_def split: option.splits)
    next
      case True
      let ?d1 = "on_height data (d\<lparr>clock := max (clock d) t, pending := evs\<rparr>)"
      have w: "interval_wait stop_at dl d = interval_wait stop_at dl ?d1"
        using unset p True by (simp add: interval_wait.simps[of stop_at dl d])
      have p1: "pending ?d1 = evs" by (simp add: pending_on_height)
      from Cons.IH[OF p1] tracks_trans[OF tracks_deliver_one[OF p, of "max (clock d) t"]] unset True
      show ?thesis
        unfolding w by (auto simp: written_on_height clock_on_height max_def)
    qed
  qed
qed

lemma deliver_until_idle:
  assumes "pending d = [] \<or> t \<le> fst (hd (pending d))" "t \<le> clock d"
  shows "deliver_until t d = d"
proof (cases "pending d")
  case Nil
  with assms(2) show ?thesis by (simp add: deliver_Nil max_def)
next
  case (Cons e evs)
  obtain t' data where e: "e = (t', data)" by (cases e)
  from assms(1) Cons e have "\<not> t' < t" by simp
  from deliver_late[OF Cons[unfolded e] this] assms(2) show ?thesis by (simp add: max_def)
qed

lemma move_to_spec:
  fixes target_mm tolerance_mm :: int and timeout latency :: time and d :: session
  defines "dw \<equiv> deliver_until (clock d + latency)
                   (d\<lparr>written := written d @ [the (build_move_packet target_mm)]\<rparr>)"
  defines "deadline \<equiv> clock dw + timeout"
  defines "r \<equiv> move_to target_mm timeout tolerance_mm True latency d"
  shows "written (snd r) = written d @ [the (build_move_packet target_mm)]"
    and "fst r = Inr True \<or> fst r = Inr False"
    and "fst r = Inr True \<Longrightarrow>
            clock (snd r) < deadline \<and> height_mm (snd r) \<noteq> None \<and>
            \<bar>the (height_mm (snd r)) - target_mm\<bar> \<le> tolerance_mm \<and>
            list_ex (\<lambda>(t, data). within_tolerance target_mm tolerance_mm data)
              (arrivals_before deadline (pending dw))"
    and "fst r = Inr False \<Longrightarrow> clock (snd r) = max (clock dw) deadline"
    and "one_at_a_time (clock dw) (arrivals_before deadline (pending dw)) \<Longrightarrow>
           fst r = Inr (0 < timeout \<and>
                  list_ex (\<lambda>(t, data). within_tolerance target_mm tolerance_mm data)
                    (arrivals_before deadline (pending dw)))"
    and "move_to target_mm timeout tolerance_mm False latency d = (Inl TransportError, dw)"
    and "timeout \<le> 0 \<Longrightarrow> r = (Inr False, dw)"
proof -
  obtain cmd where cmd: "build_move_packet target_mm = Some cmd"
    using build_move_packet_total by blast
  let ?m = "move_loop target_mm tolerance_mm deadline dw"
  have r: "r = (Inr (fst ?m), snd ?m)"
    unfolding r_def deadline_def dw_def using move_to_acked[OF cmd] by (simp add: Let_def cmd)
  note mp = move_loop_props[of target_mm tolerance_mm deadline dw]
  show "written (snd r) = written d @ [the (build_move_packet target_mm)]"
    unfolding r_def by (rule written_move_to)
  show "fst r = Inr True \<or> fst r = Inr False" by (simp add: r)
  show "fst r = Inr True \<Longrightarrow>
            clock (snd r) < deadline \<and> height_mm (snd r) \<noteq> None \<and>
            \<bar>the (height_mm (snd r)) - target_mm\<bar> \<le> tolerance_mm \<and>
            list_ex (\<lambda>(t, data). within_tolerance target_mm tolerance_mm data)
              (arrivals_before deadline (pending dw))"
    using mp by (simp add: r)
  show "fst r = Inr False \<Longrightarrow> clock (snd r) = max (clock dw) deadline"
    using mp by (simp add: r)
  show "fst r = Inr (0 < timeout \<and>
                  list_ex (\<lambda>(t, data). within_tolerance target_mm tolerance_mm data)
                    (arrivals_before deadline (pending dw)))"
    if h: "one_at_a_time (clock dw) (arrivals_before deadline (pending dw))"
  proof (cases "0 < timeout")
    case True
    then have lt: "clock dw < deadline" by (simp add: deadline_def)
    from move_loop_one_at_a_time[OF refl lt h, of target_mm tolerance_mm] True
    show ?thesis by (simp add: r)
  next
    case False
    then have "\<not> clock dw < deadline" by (simp add: deadline_def)
    from loop_done[OF this, of target_mm tolerance_mm] False show ?thesis by (simp add: r)
  qed
  show "move_to target_mm timeout tolerance_mm False latency d = (Inl TransportError, dw)"
    unfolding dw_def using move_to_refused[OF cmd] by (simp add: cmd)
  show "r = (Inr False, dw)" if "timeout \<le> 0"
  proof -
    from that have "\<not> clock dw < deadline" by (simp add: deadline_def)
    from loop_done[OF this, of target_mm tolerance_mm] show ?thesis by (simp add: r)
  qed
qed

section \<open>Lemmas: the scheduler\<close>

lemma tracks_block_for: "tracks d (block_for dt d)"
  by (simp add: block_for_def tracks_clock)



lemma tracks_auto_iteration:
  "tracks d (snd (snd (auto_iteration sit stand interval countdown stop_at ok p (nis, d))))"
proof -
  let ?w = "interval_wait stop_at (clock d + interval) d"
  let ?d1 = "snd ?w"
  let ?d2 = "deliver_until (clock ?d1 + answered_after p) ?d1"
  let ?tg = "if nis then stand else sit"
  let ?m = "move_to_cm ?tg ok (write_latency p) ?d2"
  have 1: "tracks d ?d1" using interval_wait_props[OF refl, where d=d and stop_at=stop_at] by blast
  have 2: "tracks d ?d2" using tracks_trans[OF 1 tracks_deliver_until] .
  have 3: "tracks d (snd ?m)" using tracks_trans[OF 2 tracks_move_to_cm] .
  have 4: "tracks d (block_for (report_took p) (snd ?m))"
    using tracks_trans[OF 3 tracks_block_for] .
  show ?thesis
    using 1 2 3 4
    by (cases ?w; cases ?m; cases "fst ?m")
       (auto simp: auto_iteration_def Let_def tracks_refl split: sum.splits)
qed

lemma tracks_auto_loop:
  "tracks d (snd (snd (auto_loop sit stand interval countdown stop_at ok ps (nis, d))))"
proof (induction ps arbitrary: nis d)
  case Nil
  show ?case by (simp add: tracks_refl)
next
  case (Cons p ps)
  obtain f nis' d' where
    r: "auto_iteration sit stand interval countdown stop_at ok p (nis, d) = (f, nis', d')"
    by (cases "auto_iteration sit stand interval countdown stop_at ok p (nis, d)")
  have 1: "tracks d d'"
    using tracks_auto_iteration[of d sit stand interval countdown stop_at ok p nis] r by simp
  show ?case
  proof (cases f)
    case Continue
    from tracks_trans[OF 1 Cons.IH[of d' nis']] show ?thesis by (simp add: r Continue)
  qed (use 1 r in simp_all)
qed

lemma height_ok_init: "height_ok (desk_init now evs)"
  by (simp add: height_ok_def desk_init_def)

lemma tracks_auto:
  "tracks (desk_init now evs)
     (snd (snd (auto sit stand interval countdown stop_at ok started stopped ps now evs)))"
proof -
  let ?d0 = "block_for (took started) (connect now evs)"
  let ?n0 = "initial_next_is_stand (height_cm (connect now evs)) sit stand"
  let ?l = "auto_loop sit stand interval countdown stop_at ok ps (?n0, ?d0)"
  have 0: "tracks (desk_init now evs) ?d0"
    unfolding connect_def Let_def
    using tracks_trans[OF tracks_deliver_until tracks_block_for] .
  have 1: "tracks (desk_init now evs) (snd (snd ?l))"
    using tracks_trans[OF 0 tracks_auto_loop] .
  have 2: "tracks (desk_init now evs) (block_for (took stopped) (snd (snd ?l)))"
    using tracks_trans[OF 1 tracks_block_for] .
  show ?thesis
    using 0 1 2
    by (cases ?l; cases "fst ?l") (auto simp: auto_def Let_def)
qed

lemma height_ok_auto:
  "height_ok (snd (snd (auto sit stand interval countdown stop_at ok started stopped ps now evs)))"
  by (rule height_ok_tracks[OF height_ok_init tracks_auto])


lemma iteration_cancelled:
  fixes d :: session and interval :: time and p :: turn and sit stand :: double
    and countdown :: int and stop_at :: "time option" and link_ok next_is_stand :: bool
  defines "d1 \<equiv> snd (interval_wait stop_at (clock d + interval) d)"
  defines "d2 \<equiv> deliver_until (clock d1 + answered_after p) d1"
  defines "r \<equiv> auto_iteration sit stand interval countdown stop_at link_ok p (next_is_stand, d)"
  assumes "stop_is_set stop_at (clock d2)"
  shows "fst r = Break \<or> fst r = Raise SubprocessError"
    and "countdown \<noteq> 0 \<or> \<not> subprocess_fails p \<or> stop_is_set stop_at (clock d)
           \<or> fst (interval_wait stop_at (clock d + interval) d) \<Longrightarrow> fst r = Break"
    and "fst (snd r) = next_is_stand"
    and "written (snd (snd r)) = written d"
proof -
  note iw = interval_wait_props[OF refl, where d=d and stop_at=stop_at and dl="clock d + interval"]
  have w1: "written d1 = written d" using iw by (simp add: d1_def)
  have w2: "written d2 = written d" by (simp add: d2_def written_deliver_until w1)
  show "fst r = Break \<or> fst r = Raise SubprocessError"
    using assms(4) unfolding r_def auto_iteration_def d1_def d2_def
    by (auto simp: Let_def split_beta notify_def split: sum.splits)
  show "fst (snd r) = next_is_stand"
    using assms(4) unfolding r_def auto_iteration_def d1_def d2_def
    by (auto simp: Let_def split_beta split: sum.splits)
  show "written (snd (snd r)) = written d"
    using assms(4) w1 w2 unfolding r_def auto_iteration_def d1_def d2_def
    by (auto simp: Let_def split_beta split: sum.splits)
  show "fst r = Break"
    if "countdown \<noteq> 0 \<or> \<not> subprocess_fails p \<or> stop_is_set stop_at (clock d)
           \<or> fst (interval_wait stop_at (clock d + interval) d)"
    using that assms(4) unfolding r_def auto_iteration_def d1_def d2_def
    by (auto simp: Let_def split_beta notify_def split: sum.splits)
qed



lemma auto_loop_stops:
  "fst (auto_iteration sit stand interval countdown stop_at ok p st) \<noteq> Continue \<Longrightarrow>
     auto_loop sit stand interval countdown stop_at ok (p # ps) st =
       auto_iteration sit stand interval countdown stop_at ok p st"
  by (cases "auto_iteration sit stand interval countdown stop_at ok p st";
      cases "fst (auto_iteration sit stand interval countdown stop_at ok p st)") auto










section \<open>Properties of the packet codec\<close>

text \<open>
  C1. For every integer target, \<open>build_move_packet\<close> returns a frame and never raises: the
  nine bytes 0xA6, 0xA8, 0x01, hi, lo, 0x00, 0x00, checksum, 0xFF, where hi and lo are the
  big-endian halves of the target clamped into 650 .. 1300 and the checksum is the XOR of
  0x01, hi, lo, 0x00, 0x00 (the bytes at indices 2 to 6). So the packet for 0 is the packet
  for 650, and the packet for 9999 is the packet for 1300.
\<close>

theorem build_move_packet_frame:
  fixes target_mm :: int
  defines "c \<equiv> max 650 (min 1300 target_mm)"
  defines "hi \<equiv> (word_of_int (c div 256) :: byte)"
  defines "lo \<equiv> (word_of_int (c mod 256) :: byte)"
  shows "build_move_packet target_mm =
           Some [0xA6, 0xA8, 0x01, hi, lo, 0x00, 0x00, 0x01 XOR hi XOR lo XOR 0x00 XOR 0x00, 0xFF]
         \<and> uint hi * 256 + uint lo = c
         \<and> build_move_packet 0 = build_move_packet 650
         \<and> build_move_packet 9999 = build_move_packet 1300"
proof -
  have frame: "build_move_packet target_mm =
      Some [0xA6, 0xA8, 0x01, hi, lo, 0x00, 0x00, 0x01 XOR hi XOR lo XOR 0x00 XOR 0x00, 0xFF]"
    unfolding c_def hi_def lo_def by (rule build_move_packet_eq)
  have c: "650 \<le> c" "c \<le> 1300" by (simp_all add: c_def)
  have "uint hi = c div 256" using c by (simp add: hi_def uint_word_of_int)
  moreover have "uint lo = c mod 256" by (simp add: lo_def uint_word_of_int)
  ultimately have split: "uint hi * 256 + uint lo = c" by simp
  have e1: "build_move_packet 0 = build_move_packet 650"
    using build_move_packet_clamp[of 0] by (simp add: MIN_HEIGHT_MM_def MAX_HEIGHT_MM_def)
  have e2: "build_move_packet 9999 = build_move_packet 1300"
    using build_move_packet_clamp[of 9999] by (simp add: MIN_HEIGHT_MM_def MAX_HEIGHT_MM_def)
  from frame split e1 e2 show ?thesis by simp
qed

section \<open>Properties of the move controller\<close>

text \<open>
  The statement "\<open>move_to(9999, tolerance_mm=10)\<close> behaves as \<open>move_to(1300, tolerance_mm=10)\<close>"
  fails when the desk reports 1300 one second after the command: both calls write the same
  packet, the call for 1300 returns True, and the call for 9999 compares the report with
  9999 and returns False at the deadline.
\<close>

theorem move_to_raw_target_counterexample:
  "fst (move_to 9999 30 10 True 0 (desk_init 0 [(1, [0x31, 0x33, 0x30, 0x30])])) = Inr False
   \<and> fst (move_to 1300 30 10 True 0 (desk_init 0 [(1, [0x31, 0x33, 0x30, 0x30])])) = Inr True
   \<and> written (snd (move_to 9999 30 10 True 0 (desk_init 0 [(1, [0x31, 0x33, 0x30, 0x30])]))) =
       written (snd (move_to 1300 30 10 True 0 (desk_init 0 [(1, [0x31, 0x33, 0x30, 0x30])])))"
  by code_simp

text \<open>
  C2, amended. \<open>move_to\<close> clamps the requested target into 650 .. 1300 only inside the
  command it sends: the call for a target and the call for the clamped target write the same
  packet, so \<open>move_to(9999, tolerance_mm=10)\<close> and \<open>move_to(1300, tolerance_mm=10)\<close> send the
  same command. The convergence check compares the reported heights with the requested
  target as it was passed, not with the clamped one: when the call returns True, the tracked
  height is within the tolerance of the requested target.
\<close>

theorem move_to_clamps_only_the_packet:
  fixes target_mm tolerance_mm :: int and timeout latency :: time and d :: session
  defines "clamped \<equiv> max MIN_HEIGHT_MM (min MAX_HEIGHT_MM target_mm)"
  defines "r \<equiv> move_to target_mm timeout tolerance_mm True latency d"
  shows "written (snd (move_to target_mm timeout tolerance_mm link_ok latency d)) =
           written (snd (move_to clamped timeout tolerance_mm link_ok latency d))
       \<and> written (snd (move_to 9999 timeout tolerance_mm link_ok latency d)) =
           written (snd (move_to 1300 timeout tolerance_mm link_ok latency d))
       \<and> (fst r = Inr True \<longrightarrow>
            height_mm (snd r) \<noteq> None \<and> \<bar>the (height_mm (snd r)) - target_mm\<bar> \<le> tolerance_mm)"
proof -
  have c: "build_move_packet clamped = build_move_packet target_mm"
    by (simp add: clamped_def build_move_packet_clamp)
  have e: "build_move_packet 9999 = build_move_packet 1300"
    by (simp add: build_move_packet_def MIN_HEIGHT_MM_def MAX_HEIGHT_MM_def)
  from c e move_to_spec(3)[where target_mm=target_mm and timeout=timeout and tolerance_mm=tolerance_mm
      and latency=latency and d=d]
  show ?thesis unfolding r_def by (simp add: written_move_to)
qed

theorem move_to_clamps_only_the_packet_witness:
  "fst (move_to 9999 30 10 True 0 (desk_init 0 [(1, [0x39, 0x39, 0x39, 0x30])])) = Inr True
   \<and> height_mm (snd (move_to 9999 30 10 True 0 (desk_init 0 [(1, [0x39, 0x39, 0x39, 0x30])])))
       \<noteq> None
   \<and> \<bar>the (height_mm (snd (move_to 9999 30 10 True 0
                               (desk_init 0 [(1, [0x39, 0x39, 0x39, 0x30])])))) - 9999\<bar> \<le> 10"
proof -
  have a: "fst (move_to 9999 30 10 True 0 (desk_init 0 [(1, [0x39, 0x39, 0x39, 0x30])])) = Inr True"
    by code_simp
  from a move_to_clamps_only_the_packet[where target_mm=9999 and timeout=30 and tolerance_mm=10
      and latency=0 and d="desk_init 0 [(1, [0x39, 0x39, 0x39, 0x30])]"]
  show ?thesis by simp
qed




section \<open>Properties of the telemetry handler and the tracked height\<close>

text \<open>
  C4. The handler stores a reading exactly when the payload is four ASCII decimal digits:
  then the tracked height becomes their base-10 value, unclamped, and the update event is
  set. On every other payload (a byte that is not ASCII, another length, a character that
  is not a digit) it returns with the session as it was: height and event untouched, and
  no exception.
\<close>

theorem on_height_accepts_four_digits:
  "on_height data d =
     (case telemetry_reading data of None \<Rightarrow> d
      | Some r \<Rightarrow> d\<lparr>height_mm := Some r, height_updated := True\<rparr>)
   \<and> (telemetry_reading data \<noteq> None) = (length data = 4 \<and> list_all digit_byte data)
   \<and> on_height [0x30, 0x39, 0x35, 0x30] d = d\<lparr>height_mm := Some 950, height_updated := True\<rparr>
   \<and> on_height [0x39, 0x39, 0x39, 0x39] d = d\<lparr>height_mm := Some 9999, height_updated := True\<rparr>
   \<and> on_height [0x39, 0x35] d = d
   \<and> on_height [0x39, 0x35, 0x2E, 0x30] d = d
   \<and> on_height [] d = d
   \<and> on_height [0xC3, 0xA9, 0x35, 0x30] d = d"
  by (simp add: on_height_reading) (simp add: telemetry_reading_def digit_byte_def)

text \<open>
  C5. The tracked height starts unknown. An accepted reading \<open>r\<close> makes it \<open>r\<close>, whatever it
  was before, and sets the update event; a rejected payload changes nothing. Nothing else
  writes it: after a sleep, a \<open>move_to\<close> or an iteration of the scheduler, the tracked
  height is the last reading among the notifications delivered meanwhile, and the height
  held before when none of them was a reading.
\<close>

theorem tracked_height_state_machine:
  "height_mm (desk_init now evs) = None
   \<and> \<not> height_updated (desk_init now evs)
   \<and> (telemetry_reading data = Some r \<longrightarrow>
        on_height data d = d\<lparr>height_mm := Some r, height_updated := True\<rparr>)
   \<and> (telemetry_reading data = None \<longrightarrow> on_height data d = d)
   \<and> tracks d (deliver_until t d)
   \<and> tracks d (snd (move_to target_mm timeout tolerance_mm link_ok latency d))
   \<and> tracks d (snd (snd (auto_iteration sit stand interval countdown stop_at link_ok p
                             (next_is_stand, d))))"
  by (simp add: desk_init_def on_height_reading tracks_deliver_until tracks_move_to
      tracks_auto_iteration)

theorem tracked_height_state_machine_witness:
  "telemetry_reading [0x30, 0x39, 0x35, 0x30] = Some 950
   \<and> on_height [0x30, 0x39, 0x35, 0x30] (desk_init 0 []) =
       (desk_init 0 [])\<lparr>height_mm := Some 950, height_updated := True\<rparr>
   \<and> telemetry_reading [0x31, 0x33, 0x30, 0x30] = Some 1300
   \<and> on_height [0x31, 0x33, 0x30, 0x30]
        ((desk_init 0 [])\<lparr>height_mm := Some 950, height_updated := True\<rparr>) =
       (desk_init 0 [])\<lparr>height_mm := Some 1300, height_updated := True\<rparr>
   \<and> telemetry_reading [0x39, 0x35, 0x2E, 0x30] = None
   \<and> on_height [0x39, 0x35, 0x2E, 0x30]
        ((desk_init 0 [])\<lparr>height_mm := Some 950, height_updated := False\<rparr>) =
       (desk_init 0 [])\<lparr>height_mm := Some 950, height_updated := False\<rparr>"
proof -
  have a: "telemetry_reading [0x30, 0x39, 0x35, 0x30] = Some 950"
    and b: "telemetry_reading [0x31, 0x33, 0x30, 0x30] = Some 1300"
    and c: "telemetry_reading [0x39, 0x35, 0x2E, 0x30] = None"
    by (simp_all add: telemetry_reading_def digit_byte_def)
  from a b c
    tracked_height_state_machine[where data="[0x30, 0x39, 0x35, 0x30]" and r=950
      and d="desk_init 0 []"]
    tracked_height_state_machine[where data="[0x31, 0x33, 0x30, 0x30]" and r=1300
      and d="(desk_init 0 [])\<lparr>height_mm := Some 950, height_updated := True\<rparr>"]
    tracked_height_state_machine[where data="[0x39, 0x35, 0x2E, 0x30]"
      and d="(desk_init 0 [])\<lparr>height_mm := Some 950, height_updated := False\<rparr>"]
  show ?thesis by simp
qed

section \<open>Properties of the alternation scheduler\<close>






text \<open>
  C8. When the stop signal has arrived before the interval wait runs out, the iteration
  leaves the loop: not earlier than the signal and not later than the end of the interval
  (the event loop takes the wait up again at the next notification or at the timer), with no
  command written and \<open>next_is_stand\<close> as it was. More generally, when the stop event is
  set by the end of the countdown step (before the iteration, during the interval wait, or
  while the dialog is open, skipped or not), the loop ends there, by \<open>break\<close>, or by the
  exception of a countdown step that raises: no command is written and \<open>next_is_stand\<close> is
  not flipped.
\<close>

theorem stop_ends_loop_without_move:
  fixes d :: session and interval :: time and p :: turn and sit stand :: double
    and countdown :: int and stop_at :: "time option" and link_ok next_is_stand :: bool
  defines "d1 \<equiv> snd (interval_wait stop_at (clock d + interval) d)"
  defines "d2 \<equiv> deliver_until (clock d1 + answered_after p) d1"
  defines "r \<equiv> auto_iteration sit stand interval countdown stop_at link_ok p (next_is_stand, d)"
  shows "(stop_at = Some t \<and> t < clock d + interval \<longrightarrow>
            fst r = Break \<and> fst (snd r) = next_is_stand \<and> written (snd (snd r)) = written d
            \<and> t \<le> clock (snd (snd r)) \<and> clock d \<le> clock (snd (snd r))
            \<and> clock (snd (snd r)) \<le> max (clock d) (clock d + interval)
            \<and> auto_loop sit stand interval countdown stop_at link_ok (p # ps) (next_is_stand, d) = r)
       \<and> (stop_is_set stop_at (clock d2) \<longrightarrow>
            (fst r = Break \<or> fst r = Raise SubprocessError)
            \<and> (countdown \<noteq> 0 \<or> \<not> subprocess_fails p \<longrightarrow> fst r = Break)
            \<and> fst (snd r) = next_is_stand \<and> written (snd (snd r)) = written d
            \<and> auto_loop sit stand interval countdown stop_at link_ok (p # ps) (next_is_stand, d) = r)"
proof -
  note iw = interval_wait_props[OF refl, where d=d and stop_at=stop_at and dl="clock d + interval"]
  have 2: "stop_is_set stop_at (clock d2) \<longrightarrow>
            (fst r = Break \<or> fst r = Raise SubprocessError)
            \<and> (countdown \<noteq> 0 \<or> \<not> subprocess_fails p \<longrightarrow> fst r = Break)
            \<and> fst (snd r) = next_is_stand \<and> written (snd (snd r)) = written d
            \<and> auto_loop sit stand interval countdown stop_at link_ok (p # ps) (next_is_stand, d) = r"
  proof
    assume s: "stop_is_set stop_at (clock d2)"
    note ic = iteration_cancelled[where stop_at=stop_at and d=d and interval=interval
        and p=p and sit=sit and stand=stand and countdown=countdown and link_ok=link_ok
        and next_is_stand=next_is_stand,
        OF s[unfolded d2_def d1_def], folded r_def]
    from ic(1) have "fst r \<noteq> Continue" by auto
    from auto_loop_stops[OF this[unfolded r_def], of ps]
    have "auto_loop sit stand interval countdown stop_at link_ok (p # ps) (next_is_stand, d) = r"
      by (simp add: r_def)
    with ic show "(fst r = Break \<or> fst r = Raise SubprocessError)
            \<and> (countdown \<noteq> 0 \<or> \<not> subprocess_fails p \<longrightarrow> fst r = Break)
            \<and> fst (snd r) = next_is_stand \<and> written (snd (snd r)) = written d
            \<and> auto_loop sit stand interval countdown stop_at link_ok (p # ps) (next_is_stand, d) = r"
      by blast
  qed
  have 1: "fst r = Break \<and> fst (snd r) = next_is_stand \<and> written (snd (snd r)) = written d
            \<and> t \<le> clock (snd (snd r)) \<and> clock d \<le> clock (snd (snd r))
            \<and> clock (snd (snd r)) \<le> max (clock d) (clock d + interval)
            \<and> auto_loop sit stand interval countdown stop_at link_ok (p # ps) (next_is_stand, d) = r"
    if h: "stop_at = Some t" "t < clock d + interval"
  proof (cases "stop_is_set stop_at (clock d)")
    case True
    then have r: "r = (Break, next_is_stand, d)" by (simp add: r_def auto_iteration_def)
    then have "fst r \<noteq> Continue" by simp
    from auto_loop_stops[OF this[unfolded r_def], of ps] r True h show ?thesis
      by (simp add: r_def stop_is_set_def)
  next
    case False
    from iw h have f: "fst (interval_wait stop_at (clock d + interval) d)" by auto
    with False have r: "r = (Break, next_is_stand, d1)"
      by (simp add: r_def auto_iteration_def d1_def split_beta Let_def)
    then have "fst r \<noteq> Continue" by simp
    from auto_loop_stops[OF this[unfolded r_def], of ps] r iw f h show ?thesis
      by (simp add: r_def d1_def stop_is_set_def)
  qed
  from 1 2 show ?thesis by blast
qed

theorem stop_ends_loop_without_move_witness:
  "(let r = auto_iteration (Finite 73) (Finite 105) 5 30 (Some (3 / 2)) True
              \<lparr>skip_pressed = False, subprocess_fails = False, answered_after = 30,
                write_latency = 0, report_raises = False, report_took = 0\<rparr>
              (True, desk_init 0 [(1, [0x30, 0x37, 0x30, 0x30]), (7 / 2, [0x30, 0x38, 0x30, 0x30])])
    in fst r = Break \<and> fst (snd r) = True \<and> written (snd (snd r)) = []
       \<and> 3 / 2 \<le> clock (snd (snd r)) \<and> clock (snd (snd r)) \<le> 5
       \<and> clock (snd (snd r)) = 7 / 2 \<and> height_mm (snd (snd r)) = Some 800)
   \<and> (let r = auto_loop (Finite 73) (Finite 105) 1800 30 (Some 1815) True
                [\<lparr>skip_pressed = False, subprocess_fails = False, answered_after = 30,
                   write_latency = 0, report_raises = False, report_took = 0\<rparr>,
                 \<lparr>skip_pressed = False, subprocess_fails = False, answered_after = 30,
                   write_latency = 0, report_raises = False, report_took = 0\<rparr>]
                (True, desk_init 0 [])
      in fst r = Break \<and> fst (snd r) = True \<and> written (snd (snd r)) = [])"
proof -
  let ?p = "\<lparr>skip_pressed = False, subprocess_fails = False, answered_after = 30,
                write_latency = 0, report_raises = False, report_took = 0\<rparr>"
  let ?a = "desk_init 0 [(1, [0x30, 0x37, 0x30, 0x30]), (7 / 2, [0x30, 0x38, 0x30, 0x30 :: byte])]"
  let ?e = "desk_init 0 []"
  have a: "Some (3 / 2 :: time) = Some (3 / 2) \<and> 3 / 2 < clock ?a + 5"
    by (simp add: desk_init_def)
  have b: "stop_is_set (Some 1815)
             (clock (deliver_until (clock (snd (interval_wait (Some 1815) (clock ?e + 1800) ?e)) + 30)
                (snd (interval_wait (Some 1815) (clock ?e + 1800) ?e))))"
    by code_simp
  have w: "written ?e = []" "written ?a = []" "clock ?a = 0" by (simp_all add: desk_init_def)
  have v: "clock (snd (snd (auto_iteration (Finite 73) (Finite 105) 5 30 (Some (3 / 2)) True ?p
                              (True, ?a)))) = 7 / 2"
    "height_mm (snd (snd (auto_iteration (Finite 73) (Finite 105) 5 30 (Some (3 / 2)) True ?p
                              (True, ?a)))) = Some 800"
    by code_simp+
  from stop_ends_loop_without_move[where stop_at="Some (3 / 2)" and t="3 / 2" and d="?a"
      and interval=5 and countdown=30 and sit="Finite 73" and stand="Finite 105" and link_ok=True
      and p="?p" and next_is_stand=True and ps="[]"] a w
  have A: "fst (auto_iteration (Finite 73) (Finite 105) 5 30 (Some (3 / 2)) True ?p (True, ?a)) = Break
     \<and> fst (snd (auto_iteration (Finite 73) (Finite 105) 5 30 (Some (3 / 2)) True ?p (True, ?a))) = True
     \<and> written (snd (snd (auto_iteration (Finite 73) (Finite 105) 5 30 (Some (3 / 2)) True ?p (True, ?a)))) = []
     \<and> 3 / 2 \<le> clock (snd (snd (auto_iteration (Finite 73) (Finite 105) 5 30 (Some (3 / 2)) True ?p (True, ?a))))
     \<and> clock (snd (snd (auto_iteration (Finite 73) (Finite 105) 5 30 (Some (3 / 2)) True ?p (True, ?a)))) \<le> 5"
    by simp
  from stop_ends_loop_without_move[where stop_at="Some 1815" and t=0 and d="?e"
      and interval=1800 and countdown=30 and sit="Finite 73" and stand="Finite 105" and link_ok=True
      and p="?p" and next_is_stand=True and ps="[?p]"] b w
  have B: "fst (auto_loop (Finite 73) (Finite 105) 1800 30 (Some 1815) True [?p, ?p] (True, ?e)) = Break
     \<and> fst (snd (auto_loop (Finite 73) (Finite 105) 1800 30 (Some 1815) True [?p, ?p] (True, ?e))) = True
     \<and> written (snd (snd (auto_loop (Finite 73) (Finite 105) 1800 30 (Some 1815) True [?p, ?p] (True, ?e)))) = []"
    by simp
  from A B v show ?thesis by (simp add: Let_def)
qed

section \<open>Invariant of the tracked height\<close>

text \<open>
  C9. A known tracked height lies between 0 and 9999: this holds for a fresh desk and is
  kept by the notification handler, by sleeping, by \<open>move_to\<close> and by the scheduler. The
  bounds are reached: the payload "0000" stores 0 and "9999" stores 9999, both outside the
  command range 650 .. 1300, and \<open>height_mm\<close> returns them. With no notification to
  deliver, none of these operations changes the tracked height: only the handler writes it.
\<close>

theorem tracked_height_at_most_four_digits:
  "height_ok (desk_init now evs)
   \<and> (height_ok d \<longrightarrow>
        height_ok (on_height data d) \<and> height_ok (deliver_until t d)
        \<and> height_ok (snd (move_to target_mm timeout tolerance_mm link_ok latency d))
        \<and> height_ok (snd (snd (auto_iteration sit stand interval countdown stop_at link_ok p
                                   (next_is_stand, d)))))
   \<and> height_ok (snd (snd (auto sit stand interval countdown stop_at link_ok started stopped ps
                             now evs)))
   \<and> height_mm (on_height [0x30, 0x30, 0x30, 0x30] d) = Some 0
   \<and> height_mm (on_height [0x39, 0x39, 0x39, 0x39] d) = Some 9999
   \<and> (pending d = [] \<longrightarrow>
        height_mm (deliver_until t d) = height_mm d
        \<and> height_mm (snd (move_to target_mm timeout tolerance_mm link_ok latency d)) = height_mm d
        \<and> height_mm (snd (snd (auto_iteration sit stand interval countdown stop_at link_ok p
                                   (next_is_stand, d)))) = height_mm d)"
proof -
  have oh: "height_ok d \<longrightarrow> height_ok (on_height data d)"
    using telemetry_reading_range[of data]
    by (auto simp: on_height_reading height_ok_def split: option.splits)
  have ex: "height_mm (on_height [0x30, 0x30, 0x30, 0x30] d) = Some 0"
    "height_mm (on_height [0x39, 0x39, 0x39, 0x39] d) = Some 9999"
    by (simp_all add: on_height_reading telemetry_reading_def digit_byte_def)
  show ?thesis
    using oh ex height_ok_init[of now evs]
      height_ok_auto[of sit stand interval countdown stop_at link_ok started stopped ps now evs]
      height_ok_tracks[OF _ tracks_deliver_until, of d t]
      height_ok_tracks[OF _ tracks_move_to, of d target_mm timeout tolerance_mm link_ok latency]
      height_ok_tracks[OF _ tracks_auto_iteration,
        of d sit stand interval countdown stop_at link_ok p next_is_stand]
      tracks_nothing_delivered[OF tracks_deliver_until, of d t]
      tracks_nothing_delivered[OF tracks_move_to, of d target_mm timeout tolerance_mm link_ok latency]
      tracks_nothing_delivered[OF tracks_auto_iteration,
        of d sit stand interval countdown stop_at link_ok p next_is_stand]
    by blast
qed

theorem tracked_height_at_most_four_digits_witness:
  "height_ok (desk_init 0 [(1, [0x30, 0x30, 0x30, 0x30])])
   \<and> height_ok (snd (move_to 700 30 10 True 0 (desk_init 0 [(1, [0x30, 0x30, 0x30, 0x30])])))
   \<and> height_mm (snd (move_to 700 30 10 True 0 (desk_init 0 [(1, [0x30, 0x30, 0x30, 0x30])]))) = Some 0
   \<and> pending (desk_init 0 []) = []
   \<and> height_mm (snd (move_to 700 30 10 True 0 (desk_init 0 []))) = None"
proof -
  have a: "height_ok (desk_init 0 [(1, [0x30, 0x30, 0x30, 0x30])])"
    by (simp add: height_ok_def desk_init_def)
  have b: "pending (desk_init 0 []) = []" by (simp add: desk_init_def)
  have c: "height_mm (snd (move_to 700 30 10 True 0 (desk_init 0 [(1, [0x30, 0x30, 0x30, 0x30])]))) = Some 0"
    by code_simp
  have d: "height_mm (desk_init 0 []) = None" by (simp add: desk_init_def)
  from a b c d
    tracked_height_at_most_four_digits[where now=0 and evs="[(1, [0x30, 0x30, 0x30, 0x30])]"
      and d="desk_init 0 [(1, [0x30, 0x30, 0x30, 0x30])]" and target_mm=700 and timeout=30
      and tolerance_mm=10 and link_ok=True and latency=0]
    tracked_height_at_most_four_digits[where now=0 and evs="[]" and d="desk_init 0 []"
      and target_mm=700 and timeout=30 and tolerance_mm=10 and link_ok=True and latency=0]
  show ?thesis by simp
qed

section \<open>Timeouts that are not positive\<close>

text \<open>
  C10. With a timeout of zero or less, \<open>move_to\<close> still writes its one command and then
  returns False at once: the loop is not entered, so the session is the one the write
  leaves, whatever the tracked height is, even when it is already within tolerance of the
  target. When no notification is handled while the write is acknowledged, the clock, the
  update event and the pending notifications are as they were at the call.
\<close>

theorem move_to_nonpositive_timeout:
  "timeout \<le> 0 \<Longrightarrow>
     move_to target_mm timeout tolerance_mm True latency d =
       (Inr False,
        deliver_until (clock d + latency)
          (d\<lparr>written := written d @ [the (build_move_packet target_mm)]\<rparr>))
     \<and> written (snd (move_to target_mm timeout tolerance_mm True latency d)) =
         written d @ [the (build_move_packet target_mm)]
     \<and> (latency \<le> 0 \<and> (pending d = [] \<or> clock d + latency \<le> fst (hd (pending d))) \<longrightarrow>
          move_to target_mm timeout tolerance_mm True latency d =
            (Inr False, d\<lparr>written := written d @ [the (build_move_packet target_mm)]\<rparr>))"
proof -
  assume t: "timeout \<le> 0"
  let ?dw = "d\<lparr>written := written d @ [the (build_move_packet target_mm)]\<rparr>"
  have 1: "move_to target_mm timeout tolerance_mm True latency d =
       (Inr False, deliver_until (clock d + latency) ?dw)"
    using move_to_spec(7)[OF t] .
  have 2: "latency \<le> 0 \<and> (pending d = [] \<or> clock d + latency \<le> fst (hd (pending d))) \<longrightarrow>
      deliver_until (clock d + latency) ?dw = ?dw"
    using deliver_until_idle[of ?dw "clock d + latency"] by simp
  from 1 2 written_move_to[of target_mm timeout tolerance_mm True latency d]
  show ?thesis by simp
qed

theorem move_to_nonpositive_timeout_witness:
  "(0 :: time) \<le> 0
   \<and> move_to 1300 0 10 True 0
        \<lparr>height_mm = Some 1300, height_updated = True, written = [], clock = 5,
          pending = [(6, [0x31, 0x33, 0x30, 0x30])]\<rparr>
     = (Inr False,
        \<lparr>height_mm = Some 1300, height_updated = True,
          written = [[0xA6, 0xA8, 0x01, 0x05, 0x14, 0x00, 0x00, 0x10, 0xFF]], clock = 5,
          pending = [(6, [0x31, 0x33, 0x30, 0x30])]\<rparr>)
   \<and> fst (move_to 1300 (- 1) 10 True 2
        \<lparr>height_mm = Some 1300, height_updated = True, written = [], clock = 5,
          pending = [(6, [0x31, 0x33, 0x30, 0x30])]\<rparr>) = Inr False"
proof -
  have h: "(0 :: time) \<le> 0" "(- 1 :: time) \<le> 0" by simp_all
  have pk: "the (build_move_packet 1300) = [0xA6, 0xA8, 0x01, 0x05, 0x14, 0x00, 0x00, 0x10, 0xFF]"
    by (simp add: build_move_packet_def MIN_HEIGHT_MM_def MAX_HEIGHT_MM_def bytes_of_def)
  have idle: "deliver_until 5
        \<lparr>height_mm = Some 1300, height_updated = True,
          written = [[0xA6, 0xA8, 0x01, 0x05, 0x14, 0x00, 0x00, 0x10, 0xFF]], clock = 5,
          pending = [(6, [0x31, 0x33, 0x30, 0x30])]\<rparr>
      = \<lparr>height_mm = Some 1300, height_updated = True,
          written = [[0xA6, 0xA8, 0x01, 0x05, 0x14, 0x00, 0x00, 0x10, 0xFF]], clock = 5,
          pending = [(6, [0x31, 0x33, 0x30, 0x30])]\<rparr>"
    by (rule deliver_until_idle) simp_all
  show ?thesis
    using h move_to_nonpositive_timeout[OF h(1), of 1300 10 0
        "\<lparr>height_mm = Some 1300, height_updated = True, written = [], clock = 5,
          pending = [(6, [0x31, 0x33, 0x30, 0x30])]\<rparr>"]
      move_to_nonpositive_timeout[OF h(2), of 1300 10 2
        "\<lparr>height_mm = Some 1300, height_updated = True, written = [], clock = 5,
          pending = [(6, [0x31, 0x33, 0x30, 0x30])]\<rparr>"]
    by (simp add: pk idle)
qed

end
